theory Spec2Isabelle
  imports Complex_Main "HOL-Library.Sublist" "HOL-Library.AList"
begin

section \<open>rrr\_raf\_tal.py: values, errors and effects\<close>

text \<open>
  The script is a set of callbacks over module-level variables.  Exceptions are values of
  type \<open>error\<close>; what the script prints, which files it opens and which redraws it asks of
  the plotting library are recorded as a list of \<open>effect\<close>s, in program order.  A call of
  \<open>print\<close> with several arguments is kept as the list of its arguments.  Python floats are
  modelled as reals (no rounding, no NaN).
\<close>

datatype error = IndexError | ValueError | SystemExit int

text \<open>The arguments of a \<open>print\<close>; \<open>Elapsed\<close> stands for a measured number of seconds.\<close>

datatype pyval = Str string | Num int | Flt real | Elapsed

datatype effect =
    Print "pyval list"
  | LoadAsset string
  | OpenFile string
  | DrawIdle string
  | DrawMap "int list"
  | Scatter "nat \<times> real"
  | PlotLine int "nat \<times> real" "nat \<times> real"
  | FillPeaks int real "(nat \<times> real) list"
  | PlotSeries int "real list"
  | FillAbove int real "bool list"

text \<open>\<open>xs[i]\<close> for \<open>i \<ge> 0\<close>, and \<open>xs.index(x)\<close>, the first position of \<open>x\<close>.\<close>

definition list_at :: "'a list \<Rightarrow> nat \<Rightarrow> error + 'a" where
  "list_at xs i = (if i < length xs then Inr (xs ! i) else Inl IndexError)"

fun list_index :: "'a list \<Rightarrow> 'a \<Rightarrow> error + nat" where
  "list_index [] x = Inl ValueError"
| "list_index (y # ys) x =
     (if y = x then Inr 0
      else (case list_index ys x of Inl e \<Rightarrow> Inl e | Inr i \<Rightarrow> Inr (Suc i)))"

section \<open>Command line arguments (lines 119-121 and 153-163)\<close>

record paths =
  connectivity_f_path :: string
  sf_path :: string
  Qout_f_path :: string

definition default_paths :: paths where
  "default_paths =
     \<lparr> connectivity_f_path = ''../San_Gaud_data/rapid_connect_San_Guad.csv'',
       sf_path = ''../San_Gaud_data/NHDFlowline_San_Guad/NHDFlowline_San_Guad.shp'',
       Qout_f_path = ''../San_Gaud_data/Qout_San_Guad_exp00.nc'' \<rparr>"

text \<open>
  The argument handling of lines 153-163, on \<open>sys.argv\<close>.  The result is what was printed
  and either the exception that ended the program or the three paths.
\<close>

definition get_args :: "string list \<Rightarrow> effect list \<times> (error + paths)" where
  "get_args argv =
     (let IS_arg = length argv in
      if IS_arg > 4 then
        ([Print [Str ''Error: A maximum of 3 arguments can be used.'']], Inl (SystemExit 22))
      else if IS_arg > 1 then
        (case list_at argv 2 of
           Inl e \<Rightarrow> ([], Inl e)
         | Inr a2 \<Rightarrow>
             let p2 = default_paths\<lparr>connectivity_f_path := a2\<rparr> in
             if IS_arg > 2 then
               (case list_at argv 3 of
                  Inl e \<Rightarrow> ([], Inl e)
                | Inr a3 \<Rightarrow>
                    let p3 = p2\<lparr>sf_path := a3\<rparr> in
                    if IS_arg > 3 then
                      (case list_at argv 4 of
                         Inl e \<Rightarrow> ([], Inl e)
                       | Inr a4 \<Rightarrow> ([], Inr (p3\<lparr>Qout_f_path := a4\<rparr>)))
                    else ([], Inr p3))
             else ([], Inr p2))
      else ([], Inr default_paths))"

text \<open>
  The start of the program up to the loading of the three input files.  The font, the
  waypoint drawing and the logo of the user interface are read at lines 54, 79 and 143,
  before the arguments are looked at; then the arguments are handled; only then are the
  discharge file (line 192), the connectivity file (lines 222 and 225) and the shapefile
  (line 242) opened.  What the files hold is not part of this function.
\<close>

definition assets :: "effect list" where
  "assets =
     [LoadAsset ''./assets/fonts/Inter.ttf'',
      LoadAsset ''./assets/svgs/waypoint.svg'',
      LoadAsset ''./assets/gifs/RAFT.gif'']"

definition startup :: "string list \<Rightarrow> effect list \<times> (error + paths)" where
  "startup argv =
     (case get_args argv of
        (out, Inl e) \<Rightarrow> (assets @ out, Inl e)
      | (out, Inr p) \<Rightarrow>
          (assets @ out @
           [OpenFile (Qout_f_path p),
            OpenFile (connectivity_f_path p),
            OpenFile (connectivity_f_path p),
            Print [Str ''Loading connectivity information:''],
            Print [Str ''Finished loading connectivity information''],
            OpenFile (sf_path p)],
           Inr p))"

section \<open>The loaded data and the module variables\<close>

text \<open>
  The connectivity dictionary is an association list with distinct keys in insertion order:
  \<open>map_of\<close> is the lookup, \<open>AList.update\<close> is \<open>d[k] = v\<close> (an existing key keeps its place
  and gets the new value, a new key goes to the end).
\<close>

type_synonym conn = "(int \<times> int list) list"

text \<open>One feature of the shapefile, with the two properties the script reads.\<close>

record feature =
  COMID :: int
  LENGTHKM :: real

text \<open>
  What the script holds after start-up and never changes afterwards.  The builtins
  \<open>int\<close> and \<open>float\<close> on a string and the library functions \<open>statsmodels ccf\<close> and
  \<open>numpy.percentile\<close> are parameters: \<open>py_int\<close> and \<open>py_float\<close> are \<open>None\<close> where the builtin
  raises ValueError.  \<open>Qout_data\<close> is the array of discharges, one row for each time step
  and one column for each reach of \<open>Qout_data_ids\<close>.
\<close>

record env =
  connectivity :: conn
  sf_features :: "feature list"
  Qout_data_ids :: "int list"
  Qout_data :: "real list list"
  py_int :: "string \<Rightarrow> int option"
  py_float :: "string \<Rightarrow> real option"
  ccf :: "real list \<Rightarrow> real list \<Rightarrow> real list"
  percentile :: "real list \<Rightarrow> real \<Rightarrow> real"

text \<open>Lines 243 and 244: both lists are read off the same features, in the same order.\<close>

definition river_lengths :: "env \<Rightarrow> real list" where
  "river_lengths env = map LENGTHKM (sf_features env)"

definition shp_comids :: "env \<Rightarrow> int list" where
  "shp_comids env = map COMID (sf_features env)"

text \<open>
  The module variables that the callbacks read and write, and the open figure windows
  with their numbers and labels (\<open>plt.get_fignums\<close>, \<open>plt.get_figlabels\<close>).
\<close>

record state =
  downstream_rivers_list :: "int list"
  offsets :: "real list"
  num_reaches_str :: string
  num_reaches :: int
  reach_dist_str :: string
  reach_dist :: real
  threshold_level :: string
  figures :: "(nat \<times> string) list"

definition default_reach_dist :: real where
  "default_reach_dist = 117"

definition reach_dist_units :: string where
  "reach_dist_units = ''km''"

text \<open>Lines 126-140, once the start-up has closed the windows it does not show.\<close>

definition initial_state :: state where
  "initial_state =
     \<lparr> downstream_rivers_list = [],
       offsets = [],
       num_reaches_str = ''5'',
       num_reaches = 5,
       reach_dist_str = ''117'',
       reach_dist = 117,
       threshold_level = ''90'',
       figures = [(1, ''River Network'')] \<rparr>"

text \<open>
  A callback ends normally (\<open>None\<close>) or with an exception, in the state it has reached and
  with the effects it has had.
\<close>

type_synonym outcome = "error option \<times> state \<times> effect list"

section \<open>Loading the connectivity file (lines 225-236)\<close>

text \<open>
  \<open>rows\<close> is what \<open>csv.reader\<close> yields for the file, \<open>int_of\<close> is the builtin \<open>int\<close>.
  One row: the list comprehension over \<open>row[1:]\<close> runs first, then \<open>row[0]\<close> is read, its
  spaces are removed and it is converted.
\<close>

definition row_data :: "(string \<Rightarrow> int option) \<Rightarrow> string list \<Rightarrow> int list option" where
  "row_data int_of row = those (map int_of (drop 1 row))"

definition row_key :: "(string \<Rightarrow> int option) \<Rightarrow> string list \<Rightarrow> error + int" where
  "row_key int_of row =
     (case row of
        [] \<Rightarrow> Inl IndexError
      | r0 # _ \<Rightarrow>
          (case int_of (filter (\<lambda>c. c \<noteq> CHR '' '') r0) of
             None \<Rightarrow> Inl ValueError
           | Some k \<Rightarrow> Inr k))"

definition connectivity_row ::
  "(string \<Rightarrow> int option) \<Rightarrow> string list \<Rightarrow> conn \<Rightarrow> error + conn" where
  "connectivity_row int_of row c =
     (case row_data int_of row of
        None \<Rightarrow> Inl ValueError
      | Some data \<Rightarrow>
          (case row_key int_of row of
             Inl e \<Rightarrow> Inl e
           | Inr k \<Rightarrow> Inr (AList.update k data c)))"

fun connectivity_rows ::
  "(string \<Rightarrow> int option) \<Rightarrow> string list list \<Rightarrow> conn \<Rightarrow> error + conn" where
  "connectivity_rows int_of [] c = Inr c"
| "connectivity_rows int_of (row # rows) c =
     (case connectivity_row int_of row c of
        Inl e \<Rightarrow> Inl e
      | Inr c' \<Rightarrow> connectivity_rows int_of rows c')"

text \<open>The dictionary starts empty (line 128).\<close>

definition load_connectivity :: "(string \<Rightarrow> int option) \<Rightarrow> string list list \<Rightarrow> error + conn" where
  "load_connectivity int_of rows = connectivity_rows int_of rows []"

text \<open>
  The words of the specification: every row of the file has a first column, and all its
  columns have an integer value.
\<close>

definition rows_convert :: "(string \<Rightarrow> int option) \<Rightarrow> string list list \<Rightarrow> bool" where
  "rows_convert int_of rows \<longleftrightarrow>
     list_all (\<lambda>row. row_data int_of row \<noteq> None \<and> \<not> isl (row_key int_of row)) rows"

section \<open>choose\_downstream (lines 316-331)\<close>

text \<open>
  The \<open>while\<close> loop, on the current id and the list so far.  \<open>connectivity[rivid][0]\<close>
  raises IndexError on an empty list.  The loop need not end, so the result is an option:
  \<open>None\<close> is a call that never returns.
\<close>

partial_function (option) choose_downstream_loop ::
  "conn \<Rightarrow> int \<Rightarrow> int list \<Rightarrow> (error option \<times> int list) option" where
  "choose_downstream_loop c rivid lst =
     (case map_of c rivid of
        None \<Rightarrow> Some (None, lst)
      | Some ups \<Rightarrow>
          (case ups of
             [] \<Rightarrow> Some (Some IndexError, lst)
           | r # _ \<Rightarrow> choose_downstream_loop c r (lst @ [r])))"

declare choose_downstream_loop.simps [code]

text \<open>
  The argument is the id after \<open>int(rivid)\<close>.  The value the function returns is the
  variable \<open>downstream_rivers_list\<close> itself, that is the list of the state of the outcome.
\<close>

definition choose_downstream :: "env \<Rightarrow> int \<Rightarrow> state \<Rightarrow> outcome option" where
  "choose_downstream env rivid s =
     (case choose_downstream_loop (connectivity env) rivid (downstream_rivers_list s @ [rivid]) of
        None \<Rightarrow> None
      | Some (r, lst) \<Rightarrow> Some (r, s\<lparr>downstream_rivers_list := lst\<rparr>, []))"

text \<open>
  The words of the specification.  \<open>walk_ids n c a\<close> are the ids met when following first
  entries from \<open>a\<close> for at most \<open>n\<close> steps; \<open>never_revisits\<close> says that no id comes twice,
  however long one follows; \<open>first_entries_exist\<close> says that no id met has an empty list;
  \<open>downstream_path c a p\<close> says that \<open>p\<close> starts at \<open>a\<close>, goes from each id to the first
  entry of its list and ends at the first id that is not a key.
\<close>

fun walk_ids :: "nat \<Rightarrow> conn \<Rightarrow> int \<Rightarrow> int list" where
  "walk_ids 0 c a = [a]"
| "walk_ids (Suc n) c a =
     (case map_of c a of
        None \<Rightarrow> [a]
      | Some ups \<Rightarrow> (case ups of [] \<Rightarrow> [a] | b # _ \<Rightarrow> a # walk_ids n c b))"

definition never_revisits :: "conn \<Rightarrow> int \<Rightarrow> bool" where
  "never_revisits c a \<longleftrightarrow> (\<forall>n. distinct (walk_ids n c a))"

definition first_entries_exist :: "conn \<Rightarrow> int \<Rightarrow> bool" where
  "first_entries_exist c a \<longleftrightarrow> (\<forall>n. \<forall>k \<in> set (walk_ids n c a). map_of c k \<noteq> Some [])"

inductive downstream_path :: "conn \<Rightarrow> int \<Rightarrow> int list \<Rightarrow> bool" where
  sink: "map_of c a = None \<Longrightarrow> downstream_path c a [a]"
| hop: "map_of c a = Some (b # bs) \<Longrightarrow> downstream_path c b p \<Longrightarrow> downstream_path c a (a # p)"

section \<open>get\_rivids\_along\_downstream (lines 289-313)\<close>

text \<open>
  The \<open>for\<close> loop over the rest of \<open>downstream_rivers_list\<close>, with the three local
  variables.  Both \<open>break\<close>s leave the loop with what has been collected.
\<close>

fun along_downstream ::
  "env \<Rightarrow> int \<Rightarrow> real \<Rightarrow> int list \<Rightarrow> int list \<Rightarrow> real list \<Rightarrow> real \<Rightarrow>
     error + (int list \<times> real list)" where
  "along_downstream env num_rivids dst [] rivids dists net_distance = Inr (rivids, dists)"
| "along_downstream env num_rivids dst (rivid # rest) rivids dists net_distance =
     (if int (length rivids) \<ge> num_rivids then Inr (rivids, dists)
      else if rivid \<notin> set (shp_comids env) then Inr (rivids, dists)
      else
        (case list_index (shp_comids env) rivid of
           Inl e \<Rightarrow> Inl e
         | Inr i \<Rightarrow>
             (case list_at (river_lengths env) i of
                Inl e \<Rightarrow> Inl e
              | Inr l \<Rightarrow>
                  if net_distance + l > real (length rivids) * dst
                  then along_downstream env num_rivids dst rest
                         (rivids @ [rivid]) (dists @ [net_distance + l]) (net_distance + l)
                  else along_downstream env num_rivids dst rest
                         rivids dists (net_distance + l))))"

definition get_rivids_along_downstream ::
  "env \<Rightarrow> state \<Rightarrow> int \<Rightarrow> real \<Rightarrow> error + (int list \<times> real list)" where
  "get_rivids_along_downstream env s num_rivids dst =
     along_downstream env num_rivids dst (downstream_rivers_list s) [] [] 0"

text \<open>
  The words of the specification: the shapefile length of a reach, and the cumulative sum
  of the lengths of the first \<open>k\<close> reaches of a list.
\<close>

definition length_of :: "env \<Rightarrow> int \<Rightarrow> real" where
  "length_of env rivid =
     (case find (\<lambda>f. COMID f = rivid) (sf_features env) of
        None \<Rightarrow> 0
      | Some f \<Rightarrow> LENGTHKM f)"

definition cumulative :: "env \<Rightarrow> int list \<Rightarrow> nat \<Rightarrow> real" where
  "cumulative env lst k = sum_list (map (length_of env) (take k lst))"

section \<open>Redrawing (lines 369-412 and 718-737)\<close>

text \<open>
  \<open>update_idle\<close> asks for a redraw of the control window; \<open>redraw_canvases\<close> asks for a
  redraw of both windows (\<open>skip_rerender\<close> is always False).  \<open>draw_map\<close> draws the network
  with a waypoint at each reach that \<open>get_rivids_along_downstream\<close> returns.  None of them
  writes a module variable.
\<close>

definition update_idle :: "effect list" where
  "update_idle = [DrawIdle ''Control Room'']"

definition redraw_canvases :: "effect list" where
  "redraw_canvases = [DrawIdle ''River Network'', DrawIdle ''Control Room'']"

definition draw_map :: "env \<Rightarrow> state \<Rightarrow> error option \<times> effect list" where
  "draw_map env s =
     (case get_rivids_along_downstream env s (num_reaches s) (reach_dist s) of
        Inl e \<Rightarrow> (Some e, [])
      | Inr (rivids, dists) \<Rightarrow> (None, [DrawMap rivids]))"

section \<open>The text boxes (lines 415-490)\<close>

text \<open>
  Each callback takes the text of its box.  \<open>set_threshold_level\<close> declares
  \<open>threshold_level\<close> global and never assigns it; the text only goes to a local variable.
\<close>

definition set_threshold_level :: "env \<Rightarrow> string \<Rightarrow> state \<Rightarrow> outcome" where
  "set_threshold_level env text s =
     (case py_float env (threshold_level s) of
        None \<Rightarrow> (Some ValueError, s, [])
      | Some level \<Rightarrow>
          let (threshold_level_temp, out) =
                (if level > 100 then
                   (''100'', [Print [Str ''Error: Cannot set threshold level above 100%.'']])
                 else if level < 0 then
                   (''0'', [Print [Str ''Error: Cannot set threshold level to below 0%.'']])
                 else (text, []))
          in
          if threshold_level s = threshold_level_temp then (None, s, out @ update_idle)
          else
            (None, s,
             out @ [Print [Str (''Setting the river threshold level to '' @
                                threshold_level s @ '' percentile.'')]] @ update_idle))"

text \<open>Lines 457-460 and 485-490: the new value is stored, reported and drawn.\<close>

definition show_num_reaches :: "env \<Rightarrow> int \<Rightarrow> state \<Rightarrow> outcome" where
  "show_num_reaches env num_reaches_temp s =
     (let s' = s\<lparr>num_reaches := num_reaches_temp\<rparr>;
          out = [Print [Str ''Showing'', Num num_reaches_temp, Str ''river reaches'']]
      in case draw_map env s' of
           (Some e, drawn) \<Rightarrow> (Some e, s', out @ drawn)
         | (None, drawn) \<Rightarrow> (None, s', out @ drawn @ redraw_canvases))"

definition update_num_reaches :: "env \<Rightarrow> string \<Rightarrow> state \<Rightarrow> outcome" where
  "update_num_reaches env text s =
     (let s' = s\<lparr>num_reaches_str := text\<rparr>;
          num_reaches_temp = (case py_int env text of None \<Rightarrow> 0 | Some n \<Rightarrow> n)
      in
      if num_reaches_temp < 0 then show_num_reaches env 0 s'
      else if num_reaches s' = num_reaches_temp then (None, s', update_idle)
      else show_num_reaches env num_reaches_temp s')"

definition show_reach_dist :: "env \<Rightarrow> real \<Rightarrow> effect list \<Rightarrow> state \<Rightarrow> outcome" where
  "show_reach_dist env reach_dist_temp printed s =
     (let s' = s\<lparr>reach_dist := reach_dist_temp\<rparr>;
          out = printed @
                [Print [Str ''Maintaining a distance of'', Flt reach_dist_temp,
                        Str reach_dist_units, Str ''between river reaches'']]
      in case draw_map env s' of
           (Some e, drawn) \<Rightarrow> (Some e, s', out @ drawn)
         | (None, drawn) \<Rightarrow> (None, s', out @ drawn @ redraw_canvases))"

definition update_reach_dist :: "env \<Rightarrow> string \<Rightarrow> state \<Rightarrow> outcome" where
  "update_reach_dist env text s =
     (let s' = s\<lparr>reach_dist_str := text\<rparr>;
          reach_dist_temp = (case py_float env text of None \<Rightarrow> default_reach_dist | Some x \<Rightarrow> x)
      in
      if reach_dist_temp = 0 then
        show_reach_dist env default_reach_dist
          [Print [Str (''Error: Cannot have a distance between reaches of 0.'' @
                       [CHR 0x0A, CHR 0x09] @ ''Using default value of''),
                  Flt default_reach_dist, Str (reach_dist_units @ ''.'')]] s'
      else if reach_dist s' = reach_dist_temp then (None, s', update_idle)
      else show_reach_dist env reach_dist_temp [] s')"

section \<open>The three plot windows (lines 493-700)\<close>

definition get_figlabels :: "state \<Rightarrow> string list" where
  "get_figlabels s = map snd (figures s)"

text \<open>\<open>plt.subplots(label=...)\<close>: a new window, numbered one above the highest open number.\<close>

definition new_figure :: "string \<Rightarrow> state \<Rightarrow> state" where
  "new_figure label s =
     s\<lparr>figures := figures s @ [(Suc (fold max (map fst (figures s)) 0), label)]\<rparr>"

text \<open>
  \<open>Qout_data[:, s]\<close>, which raises IndexError when the rows are not longer than \<open>s\<close>
  (an array without any row gives the empty series here), and
  \<open>[list(Qout_data_ids).index(rivid) for rivid in rivids]\<close>.
\<close>

definition column :: "real list list \<Rightarrow> nat \<Rightarrow> error + real list" where
  "column a s =
     (if \<forall>row \<in> set a. s < length row then Inr (map (\<lambda>row. row ! s) a) else Inl IndexError)"

fun index_all :: "int list \<Rightarrow> int list \<Rightarrow> error + nat list" where
  "index_all ids [] = Inr []"
| "index_all ids (rivid # rivids) =
     (case list_index ids rivid of
        Inl e \<Rightarrow> Inl e
      | Inr i \<Rightarrow> (case index_all ids rivids of Inl e \<Rightarrow> Inl e | Inr js \<Rightarrow> Inr (i # js)))"

text \<open>\<open>max(corr)\<close> raises ValueError on an empty sequence; \<open>list(corr).index(max(corr))\<close>.\<close>

definition py_max :: "real list \<Rightarrow> error + real" where
  "py_max xs = (case xs of [] \<Rightarrow> Inl ValueError | x # ys \<Rightarrow> Inr (fold max ys x))"

definition index_of_max :: "real list \<Rightarrow> error + nat" where
  "index_of_max corr = (case py_max corr of Inl e \<Rightarrow> Inl e | Inr m \<Rightarrow> list_index corr m)"

text \<open>
  The loop of \<open>show_propagation\<close> from its second tuple on (lines 537-559).  Each tuple
  is \<open>(s, i, idx, d)\<close>: the column of the reach, its position, its id and its distance.
  The drawing calls are the scatter point and the line that ends in it.
\<close>

fun propagation_loop ::
  "env \<Rightarrow> nat \<Rightarrow> (nat \<times> nat \<times> int \<times> real) list \<Rightarrow> nat \<Rightarrow> real \<Rightarrow> error option \<times> effect list"
where
  "propagation_loop env first_s [] prev_x last_dist = (None, [])"
| "propagation_loop env first_s ((s, i, idx, d) # rest) prev_x last_dist =
     (case column (Qout_data env) first_s of
        Inl e \<Rightarrow> (Some e, [])
      | Inr x \<Rightarrow>
          (case column (Qout_data env) s of
             Inl e \<Rightarrow> (Some e, [])
           | Inr y \<Rightarrow>
               (case index_of_max (ccf env x y) of
                  Inl e \<Rightarrow> (Some e, [])
                | Inr last_x \<Rightarrow>
                    (case propagation_loop env first_s rest (prev_x + last_x) (last_dist + d) of
                       (r, out) \<Rightarrow>
                         (r, Scatter (prev_x + last_x, last_dist + d)
                             # PlotLine idx (prev_x, last_dist) (prev_x + last_x, last_dist + d)
                             # out)))))"

text \<open>
  The whole loop: the first tuple (\<open>i == 0\<close>, lines 532-536) only sets \<open>first_s\<close>,
  \<open>last_dist\<close> and \<open>prev_x\<close>.
\<close>

definition propagation ::
  "env \<Rightarrow> (nat \<times> nat \<times> int \<times> real) list \<Rightarrow> error option \<times> effect list" where
  "propagation env tuples =
     (case tuples of
        [] \<Rightarrow> (None, [])
      | (s, i, idx, d) # rest \<Rightarrow> propagation_loop env s rest 0 d)"

text \<open>
  The words of the specification: \<open>l\<close> is the index of the maximum value of a
  cross-correlation function (the first such index, as \<open>list.index\<close> finds it); \<open>l\<close> is
  that index for the series of the columns \<open>first_s\<close> and \<open>s\<close>; and the time coordinates
  of the points that a list of effects plots.
\<close>

definition index_of_maximum :: "real list \<Rightarrow> nat \<Rightarrow> bool" where
  "index_of_maximum corr l \<longleftrightarrow>
     l < length corr \<and> corr ! l = Max (set corr) \<and> (\<forall>j < l. corr ! j \<noteq> Max (set corr))"

definition lag_of :: "env \<Rightarrow> nat \<Rightarrow> nat \<Rightarrow> nat \<Rightarrow> bool" where
  "lag_of env first_s s l \<longleftrightarrow>
     (case (column (Qout_data env) first_s, column (Qout_data env) s) of
        (Inr x, Inr y) \<Rightarrow> index_of_maximum (ccf env x y) l
      | _ \<Rightarrow> False)"

fun scatter_times :: "effect list \<Rightarrow> nat list" where
  "scatter_times [] = []"
| "scatter_times (Scatter (x, y) # es) = x # scatter_times es"
| "scatter_times (e # es) = scatter_times es"

text \<open>
  In all three functions the exceptions of the plotting library itself are left out; a
  window is opened by \<open>plt.subplots\<close> before the columns of the reaches are looked up.
\<close>

definition show_propagation :: "env \<Rightarrow> state \<Rightarrow> outcome" where
  "show_propagation env s =
     (let fig_name = ''River Propagation Time'' in
      if fig_name \<in> set (get_figlabels s) then (None, s, update_idle)
      else if downstream_rivers_list s = [] then (None, s, update_idle)
      else
        (case get_rivids_along_downstream env s (num_reaches s) (reach_dist s) of
           Inl e \<Rightarrow> (Some e, s, update_idle)
         | Inr (rivids, dists) \<Rightarrow>
             let s' = new_figure fig_name s;
                 out = update_idle @ [Print [Str ''Drawing the propagation timeseries:'']]
             in
             (case index_all (Qout_data_ids env) rivids of
                Inl e \<Rightarrow> (Some e, s', out)
              | Inr ss \<Rightarrow>
                  (case propagation env (zip ss (zip [0..<length rivids] (zip rivids dists))) of
                     (Some e, drawn) \<Rightarrow> (Some e, s', out @ drawn)
                   | (None, drawn) \<Rightarrow>
                       (None, s',
                        out @ drawn @
                        [Print [Str ''Finished drawing the propagation timeseries''],
                         DrawIdle fig_name])))))"

text \<open>
  The loop of \<open>show_event_duration\<close> (lines 604-625): for each reach, the time steps at
  which its discharge is at or above the percentile \<open>float(threshold_level)\<close>.
\<close>

fun event_duration_loop ::
  "env \<Rightarrow> state \<Rightarrow> (nat \<times> nat \<times> int) list \<Rightarrow> error option \<times> effect list" where
  "event_duration_loop env st [] = (None, [])"
| "event_duration_loop env st ((s, i, idx) # rest) =
     (case column (Qout_data env) s of
        Inl e \<Rightarrow> (Some e, [])
      | Inr ys \<Rightarrow>
          (case py_float env (threshold_level st) of
             None \<Rightarrow> (Some ValueError, [])
           | Some q \<Rightarrow>
               (let y_percentile = percentile env ys q;
                    peaks = filter (\<lambda>(xi, yi). yi \<ge> y_percentile) (zip [0..<length ys] ys)
                in case event_duration_loop env st rest of
                     (r, out) \<Rightarrow> (r, FillPeaks idx y_percentile peaks # out))))"

definition show_event_duration :: "env \<Rightarrow> state \<Rightarrow> outcome" where
  "show_event_duration env s =
     (let fig_name = ''Peak Duration'' in
      if fig_name \<in> set (get_figlabels s) then (None, s, update_idle)
      else
        (case get_rivids_along_downstream env s (num_reaches s) (reach_dist s) of
           Inl e \<Rightarrow> (Some e, s, update_idle)
         | Inr (rivids, dists) \<Rightarrow>
             if downstream_rivers_list s = [] then (None, s, update_idle)
             else
               let s' = new_figure fig_name s;
                   out = update_idle @ [Print [Str ''Drawing the event duration:'']]
               in
               (case index_all (Qout_data_ids env) rivids of
                  Inl e \<Rightarrow> (Some e, s', out)
                | Inr ss \<Rightarrow>
                    (case event_duration_loop env s' (zip ss (zip [0..<length rivids] rivids)) of
                       (Some e, drawn) \<Rightarrow> (Some e, s', out @ drawn)
                     | (None, drawn) \<Rightarrow>
                         (None, s',
                          out @ drawn @
                          [Print [Str ''Finished drawing the river discharges''],
                           DrawIdle fig_name])))))"

text \<open>
  The loop of \<open>show_discharge_over_time\<close> (lines 666-694): the series of each reach, and
  where it is at or above the percentile \<open>float(threshold_level)\<close>.
\<close>

fun discharge_loop ::
  "env \<Rightarrow> state \<Rightarrow> (nat \<times> nat \<times> int) list \<Rightarrow> error option \<times> effect list" where
  "discharge_loop env st [] = (None, [])"
| "discharge_loop env st ((s, i, idx) # rest) =
     (case column (Qout_data env) s of
        Inl e \<Rightarrow> (Some e, [])
      | Inr ys \<Rightarrow>
          (case py_float env (threshold_level st) of
             None \<Rightarrow> (Some ValueError, [PlotSeries idx ys])
           | Some q \<Rightarrow>
               (let y_percentile = percentile env ys q
                in case discharge_loop env st rest of
                     (r, out) \<Rightarrow>
                       (r, PlotSeries idx ys
                           # FillAbove idx y_percentile (map (\<lambda>yi. yi \<ge> y_percentile) ys)
                           # out))))"

definition show_discharge_over_time :: "env \<Rightarrow> state \<Rightarrow> outcome" where
  "show_discharge_over_time env s =
     (let discharge_title = ''River Discharges Over Time'' in
      if discharge_title \<in> set (get_figlabels s) then (None, s, [])
      else if downstream_rivers_list s = [] then (None, s, [])
      else
        (case get_rivids_along_downstream env s (num_reaches s) (reach_dist s) of
           Inl e \<Rightarrow> (Some e, s, [])
         | Inr (rivids, dists) \<Rightarrow>
             let s' = new_figure discharge_title s;
                 out = [Print [Str ''Drawing the river discharges:'']]
             in
             (case index_all (Qout_data_ids env) rivids of
                Inl e \<Rightarrow> (Some e, s', out)
              | Inr ss \<Rightarrow>
                  (case discharge_loop env s' (zip ss (zip [0..<length rivids] rivids)) of
                     (Some e, drawn) \<Rightarrow> (Some e, s', out @ drawn)
                   | (None, drawn) \<Rightarrow>
                       (None, s',
                        out @ drawn @
                        [Print [Str ''Finished drawing the river discharges''],
                         DrawIdle discharge_title])))))"

section \<open>reset (lines 796-829)\<close>

text \<open>The map is drawn without waypoints and every window but number 1 is closed.\<close>

definition reset :: "state \<Rightarrow> outcome" where
  "reset s =
     (None,
      s\<lparr>downstream_rivers_list := [],
        offsets := [],
        figures := filter (\<lambda>(n, label). n = 1) (figures s)\<rparr>,
      update_idle @
      [Print [Str ''Resetting view''],
       DrawMap [],
       DrawIdle ''River Network'',
       Print [Str ''Finished resetting view''],
       Print [Str ''Took'', Elapsed, Str ''seconds to reset'']])"

section \<open>The callbacks as a transition system\<close>

text \<open>
  What the user can set off.  \<open>Choose_downstream\<close> is the call of \<open>choose_downstream\<close> that
  \<open>on_pick\<close> makes with the id of the picked reach; the other work of \<open>on_pick\<close> (finding
  that id, drawing the map, opening the control window) is left out.  The other
  constructors are the callbacks of the text boxes and buttons.
\<close>

datatype callback =
    Choose_downstream int
  | Update_num_reaches string
  | Update_reach_dist string
  | Set_threshold_level string
  | Show_propagation
  | Show_event_duration
  | Show_discharge_over_time
  | Reset

fun step :: "env \<Rightarrow> callback \<Rightarrow> state \<Rightarrow> outcome option" where
  "step env (Choose_downstream rivid) s = choose_downstream env rivid s"
| "step env (Update_num_reaches text) s = Some (update_num_reaches env text s)"
| "step env (Update_reach_dist text) s = Some (update_reach_dist env text s)"
| "step env (Set_threshold_level text) s = Some (set_threshold_level env text s)"
| "step env Show_propagation s = Some (show_propagation env s)"
| "step env Show_event_duration s = Some (show_event_duration env s)"
| "step env Show_discharge_over_time s = Some (show_discharge_over_time env s)"
| "step env Reset s = Some (reset s)"

text \<open>
  Callbacks one after the other; after an exception the next callback starts in the state
  the failed one has left.  \<open>None\<close>: one of them never returns.
\<close>

fun run :: "env \<Rightarrow> callback list \<Rightarrow> state \<Rightarrow> (state \<times> effect list) option" where
  "run env [] s = Some (s, [])"
| "run env (cb # cbs) s =
     (case step env cb s of
        None \<Rightarrow> None
      | Some (r, s', out) \<Rightarrow>
          (case run env cbs s' of
             None \<Rightarrow> None
           | Some (s'', out') \<Rightarrow> Some (s'', out @ out')))"

section \<open>Data for the examples\<close>

text \<open>
  A parser of decimal numerals with an optional sign.  The builtins \<open>int\<close> and \<open>float\<close>
  give the same value on the strings it accepts; they accept more (blanks around the
  numeral, underscores, and for \<open>float\<close> fractions, exponents, \<open>inf\<close> and \<open>nan\<close>).
\<close>

definition digit_of :: "char \<Rightarrow> nat option" where
  "digit_of ch =
     (if 48 \<le> (of_char ch :: nat) \<and> (of_char ch :: nat) \<le> 57
      then Some (of_char ch - 48) else None)"

fun digits_value :: "string \<Rightarrow> nat \<Rightarrow> nat option" where
  "digits_value [] acc = Some acc"
| "digits_value (ch # cs) acc =
     (case digit_of ch of None \<Rightarrow> None | Some k \<Rightarrow> digits_value cs (10 * acc + k))"

definition decimal_int :: "string \<Rightarrow> int option" where
  "decimal_int text =
     (case text of
        [] \<Rightarrow> None
      | ch # cs \<Rightarrow>
          if ch = CHR ''-'' then
            (if cs = [] then None else map_option (\<lambda>n. - int n) (digits_value cs 0))
          else if ch = CHR ''+'' then
            (if cs = [] then None else map_option int (digits_value cs 0))
          else map_option int (digits_value text 0))"

definition decimal_float :: "string \<Rightarrow> real option" where
  "decimal_float text = map_option real_of_int (decimal_int text)"

text \<open>
  Three reaches in a row, 1 above 2 above 3; the connectivity rows give the id downstream
  first, and 0 for the outlet.  The stand-ins for the two library functions only serve to
  run the examples.
\<close>

definition example_env :: env where
  "example_env =
     \<lparr> connectivity = [(1, [2, 0]), (2, [3, 1]), (3, [0, 2])],
       sf_features = [\<lparr>COMID = 1, LENGTHKM = 10\<rparr>, \<lparr>COMID = 2, LENGTHKM = 20\<rparr>,
                      \<lparr>COMID = 3, LENGTHKM = 30\<rparr>],
       Qout_data_ids = [1, 2, 3],
       Qout_data = [[1, 0, 0], [5, 1, 0], [2, 5, 1], [1, 2, 5]],
       py_int = decimal_int,
       py_float = decimal_float,
       ccf = (\<lambda>x y. y),
       percentile = (\<lambda>ys q. fold max ys 0 * q / 100) \<rparr>"

text \<open>The state once reach 1 of the example has been chosen.\<close>

definition example_state :: state where
  "example_state = initial_state\<lparr>downstream_rivers_list := [1, 2, 3, 0]\<rparr>"

section \<open>Loading the connectivity file: theorems\<close>

lemma connectivity_row_Inr:
  "connectivity_row int_of row c = Inr c' \<longleftrightarrow>
     (\<exists>k data. row_key int_of row = Inr k \<and> row_data int_of row = Some data \<and>
                c' = AList.update k data c)"
  by (auto simp: connectivity_row_def split: option.splits sum.splits)

lemma connectivity_rows_append:
  "connectivity_rows int_of (pre @ post) c =
     (case connectivity_rows int_of pre c of
        Inl e \<Rightarrow> Inl e
      | Inr c' \<Rightarrow> connectivity_rows int_of post c')"
  by (induction pre arbitrary: c) (auto split: sum.splits)

lemma connectivity_rows_parsed:
  "connectivity_rows int_of rows c = Inr c' \<Longrightarrow> row \<in> set rows \<Longrightarrow>
     \<exists>k data. row_key int_of row = Inr k \<and> row_data int_of row = Some data"
proof (induction rows arbitrary: c)
  case Nil
  then show ?case by simp
next
  case (Cons r rows)
  from Cons.prems(1) obtain c1 where
    r: "connectivity_row int_of r c = Inr c1" and rest: "connectivity_rows int_of rows c1 = Inr c'"
    by (auto split: sum.splits)
  show ?case
  proof (cases "row = r")
    case True
    with r show ?thesis by (auto simp: connectivity_row_Inr)
  next
    case False
    with Cons.prems(2) have "row \<in> set rows" by simp
    with Cons.IH [OF rest] show ?thesis .
  qed
qed

lemma connectivity_rows_distinct:
  "connectivity_rows int_of rows c = Inr c' \<Longrightarrow> distinct (map fst c) \<Longrightarrow> distinct (map fst c')"
  by (induction rows arbitrary: c)
     (auto simp: connectivity_row_Inr distinct_update split: sum.splits)

lemma connectivity_rows_keys:
  "connectivity_rows int_of rows c = Inr c' \<Longrightarrow>
     fst ` set c' = fst ` set c \<union> {k. \<exists>row \<in> set rows. row_key int_of row = Inr k}"
proof (induction rows arbitrary: c)
  case Nil
  then show ?case by simp
next
  case (Cons r rows)
  from Cons.prems obtain k data where
    k: "row_key int_of r = Inr k" and
    rest: "connectivity_rows int_of rows (AList.update k data c) = Inr c'"
    by (auto simp: connectivity_row_Inr split: sum.splits)
  from Cons.IH [OF rest] k show ?case
    by (auto simp: dom_update)
qed

lemma connectivity_rows_other_keys:
  "connectivity_rows int_of rows c = Inr c' \<Longrightarrow>
     \<forall>row \<in> set rows. row_key int_of row \<noteq> Inr k \<Longrightarrow> map_of c' k = map_of c k"
proof (induction rows arbitrary: c)
  case Nil
  then show ?case by simp
next
  case (Cons r rows)
  from Cons.prems(1) obtain k' data where
    k': "row_key int_of r = Inr k'" and
    rest: "connectivity_rows int_of rows (AList.update k' data c) = Inr c'"
    by (auto simp: connectivity_row_Inr split: sum.splits)
  from Cons.prems(2) k' have "k' \<noteq> k" by auto
  moreover from Cons.prems(2) have "\<forall>row \<in> set rows. row_key int_of row \<noteq> Inr k" by simp
  ultimately show ?case using Cons.IH [OF rest] by (simp add: update_conv')
qed

lemma connectivity_rows_last_row:
  assumes "connectivity_rows int_of (pre @ row # post) c = Inr c'"
    and "\<forall>r \<in> set post. row_key int_of r \<noteq> row_key int_of row"
  shows "\<exists>k data. row_key int_of row = Inr k \<and> row_data int_of row = Some data \<and>
                   map_of c' k = Some data"
proof -
  from assms(1) obtain c1 where
    "connectivity_rows int_of (row # post) c1 = Inr c'"
    by (auto simp: connectivity_rows_append split: sum.splits)
  then obtain k data where
    k: "row_key int_of row = Inr k" and d: "row_data int_of row = Some data" and
    rest: "connectivity_rows int_of post (AList.update k data c1) = Inr c'"
    by (auto simp: connectivity_row_Inr split: sum.splits)
  from assms(2) k have "\<forall>r \<in> set post. row_key int_of r \<noteq> Inr k" by simp
  from connectivity_rows_other_keys [OF rest this]
  have "map_of c' k = Some data" by (simp add: update_conv')
  with k d show ?thesis by blast
qed

lemma load_connectivity_size:
  assumes "load_connectivity int_of rows = Inr c"
  shows "length c = card (row_key int_of ` set rows)"
proof -
  let ?K = "{k. \<exists>row \<in> set rows. row_key int_of row = Inr k}"
  from assms have rows: "connectivity_rows int_of rows [] = Inr c"
    by (simp add: load_connectivity_def)
  have "distinct (map fst c)"
    using connectivity_rows_distinct [OF rows] by simp
  then have "length c = card (fst ` set c)"
    using distinct_card [of "map fst c"] by simp
  also have "fst ` set c = ?K"
    using connectivity_rows_keys [OF rows] by simp
  also have "card ?K = card (Inr ` ?K :: (error + int) set)"
    by (simp add: card_image)
  also have "(Inr ` ?K :: (error + int) set) = row_key int_of ` set rows"
    using connectivity_rows_parsed [OF rows] by force
  finally show ?thesis .
qed

lemma connectivity_rows_succeed:
  "rows_convert int_of rows \<Longrightarrow> \<exists>c'. connectivity_rows int_of rows c = Inr c'"
proof (induction rows arbitrary: c)
  case Nil
  then show ?case by simp
next
  case (Cons row rows)
  from Cons.prems obtain k data where
    "row_key int_of row = Inr k" "row_data int_of row = Some data"
    by (cases "row_key int_of row") (auto simp: rows_convert_def)
  moreover from Cons.prems have "rows_convert int_of rows"
    by (simp add: rows_convert_def)
  ultimately show ?case
    using Cons.IH by (simp add: connectivity_row_def)
qed

lemma load_connectivity_last_row:
  assumes "load_connectivity int_of rows = Inr c"
    and "rows = pre @ row # post"
    and "\<forall>r \<in> set post. row_key int_of r \<noteq> row_key int_of row"
  shows "\<exists>k data. row_key int_of row = Inr k \<and> row_data int_of row = Some data \<and>
                   map_of c k = Some data"
  using connectivity_rows_last_row [of int_of pre row post "[]" c] assms
  by (simp add: load_connectivity_def)

lemma load_connectivity_distinct:
  assumes "load_connectivity int_of rows = Inr c"
  shows "distinct (map fst c)"
  using connectivity_rows_distinct [of int_of rows "[]" c] assms
  by (simp add: load_connectivity_def)

text \<open>
  Claim C6, as amended.  A file in which every row has a first column and all columns
  have integer values loads, and the dictionary has one entry for each distinct
  first-column id: its keys are distinct and their number is the number of distinct ids
  among the rows.  Every row that no later row repeats the id of gives its entry: the key
  is the integer of the first column with the spaces removed, the value the integers of
  the other columns in order.  (A row whose id comes again further down is overwritten.)
\<close>

theorem load_connectivity_entries:
  assumes "rows_convert int_of rows"
  shows "\<exists>c. load_connectivity int_of rows = Inr c \<and>
             distinct (map fst c) \<and>
             length c = card (row_key int_of ` set rows) \<and>
             (\<forall>pre row post.
                rows = pre @ row # post \<and>
                (\<forall>r \<in> set post. row_key int_of r \<noteq> row_key int_of row) \<longrightarrow>
                (\<exists>k data. row_key int_of row = Inr k \<and> row_data int_of row = Some data \<and>
                           map_of c k = Some data))"
proof -
  from connectivity_rows_succeed [OF assms, of "[]"] obtain c where
    c: "load_connectivity int_of rows = Inr c"
    by (auto simp: load_connectivity_def)
  from load_connectivity_distinct [OF c] load_connectivity_size [OF c]
    load_connectivity_last_row [OF c] c
  show ?thesis by blast
qed

text \<open>
  Claim C6 as stated fails on a file with two rows for the same id: the dictionary has
  one entry for the two rows, and the key of the first row maps to the columns of the
  second.
\<close>

theorem load_connectivity_counterexample:
  "load_connectivity decimal_int [[''1'', ''2''], [''1'', ''3'']] = Inr [(1, [3])] \<and>
   length [(1 :: int, [3 :: int])] \<noteq> length [[''1'', ''2''], [''1'', ''3'']] \<and>
   row_key decimal_int [''1'', ''2''] = Inr 1 \<and>
   row_data decimal_int [''1'', ''2''] = Some [2] \<and>
   map_of [(1 :: int, [3 :: int])] 1 \<noteq> Some [2]"
  by (simp add: load_connectivity_def connectivity_row_def row_data_def row_key_def
        decimal_int_def digit_of_def)

text \<open>
  A file of two rows; the spaces of the first column are removed before the conversion.
\<close>

theorem load_connectivity_entries_witness:
  "rows_convert decimal_int [[''1 0'', ''2'', ''0''], [''7'', ''10'']] \<and>
   load_connectivity decimal_int [[''1 0'', ''2'', ''0''], [''7'', ''10'']] =
     Inr [(10, [2, 0]), (7, [10])] \<and>
   distinct (map fst [(10 :: int, [2 :: int, 0]), (7, [10])]) \<and>
   length [(10 :: int, [2 :: int, 0]), (7, [10])] =
     card (row_key decimal_int ` set [[''1 0'', ''2'', ''0''], [''7'', ''10'']]) \<and>
   map_of [(10 :: int, [2 :: int, 0]), (7, [10])] 10 = Some [2, 0]"
proof -
  have h: "rows_convert decimal_int [[''1 0'', ''2'', ''0''], [''7'', ''10'']]"
    by (simp add: rows_convert_def row_data_def row_key_def decimal_int_def digit_of_def)
  have ld: "load_connectivity decimal_int [[''1 0'', ''2'', ''0''], [''7'', ''10'']] =
              Inr [(10, [2, 0]), (7, [10])]"
    by (simp add: load_connectivity_def connectivity_row_def row_data_def row_key_def
        decimal_int_def digit_of_def)
  from load_connectivity_entries [OF h] h ld show ?thesis
    by simp
qed

section \<open>choose\_downstream: theorems\<close>

lemma walk_ids_nonempty: "walk_ids n c a \<noteq> []"
  by (cases n) (auto split: option.splits list.splits)

lemma hd_walk_ids: "hd (walk_ids n c a) = a"
  by (cases n) (auto split: option.splits list.splits)

lemma walk_ids_keys: "set (butlast (walk_ids n c a)) \<subseteq> fst ` set c"
proof (induction n arbitrary: a)
  case 0
  then show ?case by simp
next
  case (Suc n)
  show ?case
  proof (cases "map_of c a")
    case None
    then show ?thesis by simp
  next
    case (Some ups)
    show ?thesis
    proof (cases ups)
      case Nil
      with Some show ?thesis by simp
    next
      case (Cons b bs)
      from Some have "a \<in> fst ` set c"
        by (metis map_of_SomeD fst_conv image_eqI)
      with Some Cons Suc.IH [of b] show ?thesis
        by (simp add: walk_ids_nonempty)
    qed
  qed
qed

lemma walk_ids_short:
  assumes "distinct (walk_ids n c a)"
  shows "length (walk_ids n c a) \<le> Suc (length c)"
proof -
  let ?w = "walk_ids n c a"
  from assms have "distinct (butlast ?w)" by (rule distinct_butlast)
  then have "length (butlast ?w) = card (set (butlast ?w))"
    by (simp add: distinct_card)
  also have "\<dots> \<le> card (fst ` set c)"
    by (rule card_mono) (simp_all add: walk_ids_keys)
  also have "\<dots> \<le> length c"
    by (metis card_image_le card_length le_trans List.finite_set)
  finally show ?thesis by simp
qed

lemma choose_downstream_loop_walk:
  "length (walk_ids n c a) \<le> n \<Longrightarrow>
     choose_downstream_loop c a lst =
       Some (if map_of c (last (walk_ids n c a)) = None then None else Some IndexError,
             lst @ tl (walk_ids n c a))"
proof (induction n arbitrary: a lst)
  case 0
  then show ?case by simp
next
  case (Suc n)
  show ?case
  proof (cases "map_of c a")
    case None
    then show ?thesis by (simp add: choose_downstream_loop.simps)
  next
    case (Some ups)
    show ?thesis
    proof (cases ups)
      case Nil
      with Some show ?thesis by (simp add: choose_downstream_loop.simps)
    next
      case (Cons b bs)
      with Some Suc.prems have "length (walk_ids n c b) \<le> n" by simp
      from Suc.IH [OF this, of "lst @ [b]"] Some Cons show ?thesis
        using walk_ids_nonempty [of n c b] hd_walk_ids [of n c b]
        by (subst choose_downstream_loop.simps) (cases "walk_ids n c b"; simp)
    qed
  qed
qed

lemma walk_ids_downstream_path:
  "length (walk_ids n c a) \<le> n \<Longrightarrow> map_of c (last (walk_ids n c a)) = None \<Longrightarrow>
     downstream_path c a (walk_ids n c a)"
proof (induction n arbitrary: a)
  case 0
  then show ?case by simp
next
  case (Suc n)
  show ?case
  proof (cases "map_of c a")
    case None
    then show ?thesis by (simp add: downstream_path.sink)
  next
    case (Some ups)
    show ?thesis
    proof (cases ups)
      case Nil
      with Some Suc.prems show ?thesis by simp
    next
      case (Cons b bs)
      with Some Suc.prems have "length (walk_ids n c b) \<le> n"
        and "map_of c (last (walk_ids n c b)) = None"
        by (simp_all add: walk_ids_nonempty)
      from Suc.IH [OF this] Some Cons show ?thesis
        by (simp add: downstream_path.hop)
    qed
  qed
qed

lemma downstream_path_unique:
  "downstream_path c a p \<Longrightarrow> downstream_path c a q \<Longrightarrow> q = p"
proof (induction arbitrary: q rule: downstream_path.induct)
  case (sink c a)
  from sink.prems sink.hyps show ?case
    by (cases rule: downstream_path.cases) auto
next
  case (hop c a b bs p)
  from hop.prems hop.hyps(1) obtain q' where "q = a # q'" "downstream_path c b q'"
    by (cases rule: downstream_path.cases) auto
  with hop.IH show ?case by simp
qed

lemma walk_ids_last_in_set: "last (walk_ids n c a) \<in> set (walk_ids n c a)"
  by (simp add: walk_ids_nonempty)

lemma choose_downstream_loop_prefix:
  assumes "choose_downstream_loop c a lst = Some y"
  shows "prefix lst (snd y)"
proof (rule choose_downstream_loop.raw_induct
         [where P = "\<lambda>c a lst y. prefix lst (snd y)", OF _ assms])
  fix loop :: "conn \<Rightarrow> int \<Rightarrow> int list \<Rightarrow> (error option \<times> int list) option"
    and c a lst y
  assume IH: "\<And>c a lst y. loop c a lst = Some y \<Longrightarrow> prefix lst (snd y)"
    and body:
      "(case map_of c a of
          None \<Rightarrow> Some (None, lst)
        | Some ups \<Rightarrow>
            (case ups of
               [] \<Rightarrow> Some (Some IndexError, lst)
             | r # _ \<Rightarrow> loop c r (lst @ [r]))) = Some y"
  show "prefix lst (snd y)"
  proof (cases "map_of c a")
    case None
    with body show ?thesis by auto
  next
    case (Some ups)
    show ?thesis
    proof (cases ups)
      case Nil
      with Some body show ?thesis by auto
    next
      case (Cons b bs)
      with Some body have "loop c b (lst @ [b]) = Some y" by simp
      then have "prefix (lst @ [b]) (snd y)" by (rule IH)
      then show ?thesis by (rule append_prefixD)
    qed
  qed
qed

lemma choose_downstream_loop_longer:
  assumes "choose_downstream_loop c a lst = Some y"
  shows "length lst \<le> length (snd y)"
  using choose_downstream_loop_prefix [OF assms] by (rule prefix_length_le)

lemma walk_ids_stopped:
  "length (walk_ids n c a) \<le> n \<Longrightarrow>
     map_of c (last (walk_ids n c a)) = None \<or> map_of c (last (walk_ids n c a)) = Some []"
proof (induction n arbitrary: a)
  case 0
  then show ?case by simp
next
  case (Suc n)
  show ?case
  proof (cases "map_of c a")
    case None
    then show ?thesis by simp
  next
    case (Some ups)
    show ?thesis
    proof (cases ups)
      case Nil
      with Some show ?thesis by simp
    next
      case (Cons b bs)
      with Some Suc.prems have "length (walk_ids n c b) \<le> n" by simp
      from Suc.IH [OF this] Some Cons show ?thesis
        by (simp add: walk_ids_nonempty)
    qed
  qed
qed

lemma walk_ids_prefix:
  "length (walk_ids n c a) \<le> n \<Longrightarrow> prefix (walk_ids m c a) (walk_ids n c a)"
proof (induction n arbitrary: m a)
  case 0
  then show ?case by simp
next
  case (Suc n)
  show ?case
  proof (cases m)
    case 0
    then show ?thesis
      by (auto split: option.splits list.splits)
  next
    case m: (Suc m')
    show ?thesis
    proof (cases "map_of c a")
      case None
      with m show ?thesis by simp
    next
      case (Some ups)
      show ?thesis
      proof (cases ups)
        case Nil
        with Some m show ?thesis by simp
      next
        case (Cons b bs)
        with Some Suc.prems have "length (walk_ids n c b) \<le> n" by simp
        from Suc.IH [OF this, of m'] Some Cons m show ?thesis by simp
      qed
    qed
  qed
qed

lemma never_revisits_by_walk:
  assumes "length (walk_ids n c a) \<le> n" and "distinct (walk_ids n c a)"
  shows "never_revisits c a"
  unfolding never_revisits_def
proof
  fix m
  from walk_ids_prefix [OF assms(1), of m] obtain zs where
    "walk_ids n c a = walk_ids m c a @ zs"
    by (auto simp: prefix_def)
  with assms(2) show "distinct (walk_ids m c a)" by simp
qed

lemma walk_ids_subset:
  assumes "length (walk_ids n c a) \<le> n"
  shows "set (walk_ids m c a) \<subseteq> set (walk_ids n c a)"
  using walk_ids_prefix [OF assms, of m] by (rule set_mono_prefix)

text \<open>
  Claim C1, as amended.  If following first entries from the starting id never revisits
  an id, and no id met on the way has an empty connectivity list, then the call returns:
  it has appended to \<open>downstream_rivers_list\<close> the one downstream path of the starting id
  (the starting id, then from each id the first entry of its list, up to the first id that
  is not a key), and it raises nothing.
\<close>

theorem choose_downstream_returns_path:
  assumes "never_revisits (connectivity env) rivid"
    and "first_entries_exist (connectivity env) rivid"
  shows "\<exists>p. (\<forall>q. downstream_path (connectivity env) rivid q \<longleftrightarrow> q = p) \<and>
             choose_downstream env rivid s =
               Some (None, s\<lparr>downstream_rivers_list := downstream_rivers_list s @ p\<rparr>, [])"
proof -
  let ?c = "connectivity env"
  let ?n = "Suc (length ?c)"
  let ?w = "walk_ids ?n ?c rivid"
  from assms(1) have "distinct ?w" unfolding never_revisits_def by blast
  then have short: "length ?w \<le> ?n" by (rule walk_ids_short)
  have "last ?w \<in> set ?w" by (rule walk_ids_last_in_set)
  with assms(2) have "map_of ?c (last ?w) \<noteq> Some []"
    unfolding first_entries_exist_def by blast
  with walk_ids_stopped [OF short] have sink: "map_of ?c (last ?w) = None" by blast
  have path: "downstream_path ?c rivid ?w"
    using short sink by (rule walk_ids_downstream_path)
  have w: "rivid # tl ?w = ?w"
    using walk_ids_nonempty [of ?n ?c rivid] hd_walk_ids [of ?n ?c rivid]
    by (cases ?w) auto
  have "choose_downstream_loop ?c rivid (downstream_rivers_list s @ [rivid]) =
          Some (None, (downstream_rivers_list s @ [rivid]) @ tl ?w)"
    using choose_downstream_loop_walk [OF short] sink by simp
  also have "(downstream_rivers_list s @ [rivid]) @ tl ?w = downstream_rivers_list s @ ?w"
    using w by simp
  finally have "choose_downstream env rivid s =
      Some (None, s\<lparr>downstream_rivers_list := downstream_rivers_list s @ ?w\<rparr>, [])"
    by (simp add: choose_downstream_def)
  moreover have "\<forall>q. downstream_path ?c rivid q \<longleftrightarrow> q = ?w"
    using path downstream_path_unique [OF path] by blast
  ultimately show ?thesis by blast
qed

lemma example_walk: "walk_ids 4 (connectivity example_env) 1 = [1, 2, 3, 0]"
  by (simp add: example_env_def eval_nat_numeral)

text \<open>
  From reach 1 of the example the path is 1, 2, 3 and the outlet 0.
\<close>

theorem choose_downstream_returns_path_witness:
  "never_revisits (connectivity example_env) 1 \<and>
   first_entries_exist (connectivity example_env) 1 \<and>
   downstream_path (connectivity example_env) 1 [1, 2, 3, 0] \<and>
   choose_downstream example_env 1 initial_state =
     Some (None, initial_state\<lparr>downstream_rivers_list := [1, 2, 3, 0]\<rparr>, [])"
proof -
  let ?c = "connectivity example_env"
  have len: "length (walk_ids 4 ?c 1) \<le> 4" by (simp add: example_walk)
  have h1: "never_revisits ?c 1"
    using len by (rule never_revisits_by_walk) (simp add: example_walk)
  have h2: "first_entries_exist ?c 1"
    unfolding first_entries_exist_def
  proof (intro allI ballI)
    fix n k
    assume "k \<in> set (walk_ids n ?c 1)"
    with walk_ids_subset [OF len, of n] have "k \<in> set [1, 2, 3, 0 :: int]"
      by (auto simp: example_walk)
    then show "map_of ?c k \<noteq> Some []"
      by (auto simp: example_env_def)
  qed
  have "downstream_path ?c 0 [0]"
    by (rule downstream_path.sink) (simp add: example_env_def)
  then have "downstream_path ?c 3 [3, 0]"
    by (rule downstream_path.hop [rotated]) (simp add: example_env_def)
  then have "downstream_path ?c 2 [2, 3, 0]"
    by (rule downstream_path.hop [rotated]) (simp add: example_env_def)
  then have path: "downstream_path ?c 1 [1, 2, 3, 0]"
    by (rule downstream_path.hop [rotated]) (simp add: example_env_def)
  from choose_downstream_returns_path [OF h1 h2, of initial_state] obtain p where
    p: "\<forall>q. downstream_path ?c 1 q \<longleftrightarrow> q = p"
      "choose_downstream example_env 1 initial_state =
         Some (None, initial_state\<lparr>downstream_rivers_list := downstream_rivers_list initial_state @ p\<rparr>, [])"
    by blast
  from path spec [OF p(1), of "[1, 2, 3, 0]"] have "p = [1, 2, 3, 0]" by simp
  with p(2) h1 h2 path show ?thesis by (simp add: initial_state_def)
qed

text \<open>
  Claim C1 as stated fails where a key has an empty list: with the dictionary \<open>{1: []}\<close>
  nothing is revisited from 1, and \<open>connectivity[1][0]\<close> raises IndexError after the
  starting id has been appended.
\<close>

theorem choose_downstream_counterexample:
  "never_revisits [(1, [])] 1 \<and>
   choose_downstream (example_env\<lparr>connectivity := [(1, [])]\<rparr>) 1 initial_state =
     Some (Some IndexError, initial_state\<lparr>downstream_rivers_list := [1]\<rparr>, [])"
proof -
  have "walk_ids 1 [(1, [])] 1 = [1]" by simp
  then have "never_revisits [(1, [])] 1"
    by (intro never_revisits_by_walk [of 1]) simp_all
  moreover have "choose_downstream_loop [(1, [])] 1 [1] = Some (Some IndexError, [1])"
    by (subst choose_downstream_loop.simps) simp
  ultimately show ?thesis
    by (simp add: choose_downstream_def initial_state_def)
qed

section \<open>get\_rivids\_along\_downstream: theorems\<close>

lemma list_index_mem:
  "x \<in> set xs \<Longrightarrow> \<exists>i. list_index xs x = Inr i \<and> i < length xs \<and> xs ! i = x"
  by (induction xs) auto

lemma list_index_find:
  "list_index (map f xs) k = Inr i \<Longrightarrow> find (\<lambda>x. f x = k) xs = Some (xs ! i)"
proof (induction xs arbitrary: i)
  case Nil
  then show ?case by simp
next
  case (Cons x xs)
  then show ?case by (auto split: if_splits sum.splits)
qed

lemma river_length_lookup:
  assumes "rivid \<in> set (shp_comids env)"
  shows "\<exists>i. list_index (shp_comids env) rivid = Inr i \<and>
             list_at (river_lengths env) i = Inr (length_of env rivid)"
proof -
  from list_index_mem [OF assms] obtain i where
    i: "list_index (shp_comids env) rivid = Inr i" "i < length (shp_comids env)"
    by blast
  from i(1) have "find (\<lambda>f. COMID f = rivid) (sf_features env) = Some (sf_features env ! i)"
    by (simp add: shp_comids_def list_index_find)
  with i show ?thesis
    by (simp add: list_at_def river_lengths_def shp_comids_def length_of_def)
qed

text \<open>One step of the loop, with the length of the reach looked up by \<open>length_of\<close>.\<close>

lemma along_downstream_step:
  "along_downstream env num_rivids dst (rivid # rest) rivids dists net =
     (if int (length rivids) \<ge> num_rivids \<or> rivid \<notin> set (shp_comids env) then Inr (rivids, dists)
      else if net + length_of env rivid > real (length rivids) * dst
      then along_downstream env num_rivids dst rest
             (rivids @ [rivid]) (dists @ [net + length_of env rivid]) (net + length_of env rivid)
      else along_downstream env num_rivids dst rest rivids dists (net + length_of env rivid))"
  using river_length_lookup [of rivid env] by auto

lemma along_downstream_stops:
  "x \<notin> set (shp_comids env) \<Longrightarrow>
     along_downstream env num_rivids dst (pre @ x # post) rivids dists net =
     along_downstream env num_rivids dst pre rivids dists net"
proof (induction pre arbitrary: rivids dists net)
  case Nil
  then show ?case by simp
next
  case (Cons p pre)
  show ?case
    unfolding append_Cons along_downstream_step [of _ _ _ p]
    by (simp add: Cons)
qed

lemma along_downstream_positions:
  assumes "lst = seen @ rest"
    and "net = cumulative env lst (length seen)"
    and "sorted_wrt (<) ks0" and "\<forall>k \<in> set ks0. k < length seen"
    and "rivids = map ((!) lst) ks0"
    and "dists = map (\<lambda>k. cumulative env lst (Suc k)) ks0"
    and "\<forall>i < length dists. dists ! i > real i * dst"
    and "int (length rivids) \<le> num_rivids \<or> rest = []"
    and "set seen \<subseteq> set (shp_comids env)"
  shows "\<exists>ks. along_downstream env num_rivids dst rest rivids dists net =
                 Inr (map ((!) lst) ks, map (\<lambda>k. cumulative env lst (Suc k)) ks) \<and>
              sorted_wrt (<) ks \<and> (\<forall>k \<in> set ks. k < length lst) \<and>
              (int (length ks) \<le> num_rivids \<or> ks = ks0) \<and>
              (\<forall>i < length ks. cumulative env lst (Suc (ks ! i)) > real i * dst) \<and>
              (\<forall>k \<in> set ks. set (take (Suc k) lst) \<subseteq> set (shp_comids env))"
  using assms
proof (induction rest arbitrary: seen net ks0 rivids dists)
  case Nil
  have "set (take (Suc k) lst) \<subseteq> set (shp_comids env)" for k
    using Nil.prems(1,9) set_take_subset [of "Suc k" lst] by auto
  with Nil show ?case
    by (intro exI [of _ ks0]) auto
next
  case (Cons rivid rest)
  let ?l = "length_of env rivid"
  have lst: "lst = (seen @ [rivid]) @ rest" using Cons.prems(1) by simp
  have nth: "lst ! length seen = rivid" using Cons.prems(1) by simp
  have net': "net + ?l = cumulative env lst (length (seen @ [rivid]))"
    using Cons.prems(1,2) by (simp add: cumulative_def take_Suc_conv_app_nth)
  show ?case
  proof (cases "int (length rivids) \<ge> num_rivids \<or> rivid \<notin> set (shp_comids env)")
    case True
    have "set (take (Suc k) lst) \<subseteq> set (shp_comids env)" if "k \<in> set ks0" for k
    proof -
      from that Cons.prems(4) have "Suc k \<le> length seen" by auto
      then have "take (Suc k) lst = take (Suc k) seen" using Cons.prems(1) by simp
      with Cons.prems(9) set_take_subset [of "Suc k" seen] show ?thesis by auto
    qed
    with True Cons.prems show ?thesis
      unfolding along_downstream_step
      by (intro exI [of _ ks0]) auto
  next
    case False
    then have 9: "set (seen @ [rivid]) \<subseteq> set (shp_comids env)"
      using Cons.prems(9) by simp
    show ?thesis
    proof (cases "net + ?l > real (length rivids) * dst")
      case True
      let ?ks = "ks0 @ [length seen]"
      have 1: "sorted_wrt (<) ?ks" using Cons.prems(3,4) by (auto simp: sorted_wrt_append)
      have 2: "\<forall>k \<in> set ?ks. k < length (seen @ [rivid])" using Cons.prems(4) by auto
      have 3: "rivids @ [rivid] = map ((!) lst) ?ks" using Cons.prems(5) nth by simp
      have 4: "dists @ [net + ?l] = map (\<lambda>k. cumulative env lst (Suc k)) ?ks"
        using Cons.prems(6) net' by simp
      have 5: "\<forall>i < length (dists @ [net + ?l]). (dists @ [net + ?l]) ! i > real i * dst"
        using Cons.prems(5,6,7) True by (auto simp: nth_append less_Suc_eq)
      have 6: "int (length (rivids @ [rivid])) \<le> num_rivids \<or> rest = []"
        using False by simp
      from Cons.IH [OF lst net' 1 2 3 4 5 6 9] obtain ks where
        ks: "along_downstream env num_rivids dst rest (rivids @ [rivid]) (dists @ [net + ?l]) (net + ?l) =
               Inr (map ((!) lst) ks, map (\<lambda>k. cumulative env lst (Suc k)) ks)"
          "sorted_wrt (<) ks" "\<forall>k \<in> set ks. k < length lst"
          "int (length ks) \<le> num_rivids \<or> ks = ?ks"
          "\<forall>i < length ks. cumulative env lst (Suc (ks ! i)) > real i * dst"
          "\<forall>k \<in> set ks. set (take (Suc k) lst) \<subseteq> set (shp_comids env)"
        by blast
      from ks(4) False Cons.prems(5) have "int (length ks) \<le> num_rivids" by auto
      with ks False True show ?thesis
        unfolding along_downstream_step by (intro exI [of _ ks]) simp
    next
      case no: False
      have 2: "\<forall>k \<in> set ks0. k < length (seen @ [rivid])" using Cons.prems(4) by auto
      have 6: "int (length rivids) \<le> num_rivids \<or> rest = []" using False by simp
      from Cons.IH [OF lst net' Cons.prems(3) 2 Cons.prems(5,6,7) 6 9] obtain ks where
        ks: "along_downstream env num_rivids dst rest rivids dists (net + ?l) =
               Inr (map ((!) lst) ks, map (\<lambda>k. cumulative env lst (Suc k)) ks)"
          "sorted_wrt (<) ks" "\<forall>k \<in> set ks. k < length lst"
          "int (length ks) \<le> num_rivids \<or> ks = ks0"
          "\<forall>i < length ks. cumulative env lst (Suc (ks ! i)) > real i * dst"
          "\<forall>k \<in> set ks. set (take (Suc k) lst) \<subseteq> set (shp_comids env)"
        by blast
      with False no show ?thesis
        unfolding along_downstream_step by (intro exI [of _ ks]) simp
    qed
  qed
qed

lemma along_downstream_lengths:
  "along_downstream env num_rivids dst rest rivids dists net = Inr (rivids', dists') \<Longrightarrow>
     length dists = length rivids \<Longrightarrow> length dists' = length rivids'"
proof (induction rest arbitrary: rivids dists net)
  case Nil
  then show ?case by simp
next
  case (Cons rivid rest)
  from Cons.prems show ?case
    unfolding along_downstream_step
    by (auto split: if_splits dest: Cons.IH)
qed

lemma along_downstream_total:
  "\<exists>rivids' dists'. along_downstream env num_rivids dst rest rivids dists net = Inr (rivids', dists')"
proof (induction rest arbitrary: rivids dists net)
  case Nil
  then show ?case by simp
next
  case (Cons rivid rest)
  show ?case unfolding along_downstream_step using Cons by auto
qed

lemma get_rivids_along_downstream_total:
  "\<exists>rivids dists. get_rivids_along_downstream env s num_rivids dst = Inr (rivids, dists)"
  unfolding get_rivids_along_downstream_def by (rule along_downstream_total)


text \<open>
  Claim C2.  For \<open>num_rivids \<ge> 0\<close> the function returns two lists of the same length, at
  most \<open>num_rivids\<close>.  They are read at increasing positions \<open>ks\<close> of
  \<open>downstream_rivers_list\<close>: the reach at the position, and the sum of the shapefile lengths
  of all reaches up to and including it, every one of which is in the shapefile.  The
  \<open>i\<close>-th distance is greater than \<open>i * dist\<close>.  Nothing at or after an id that the
  shapefile does not have is looked at: the result is that of the list cut before it.
\<close>

theorem get_rivids_along_downstream_result:
  assumes "0 \<le> num_rivids"
  shows "\<exists>rivids dists ks.
           get_rivids_along_downstream env s num_rivids dst = Inr (rivids, dists) \<and>
           length rivids = length dists \<and>
           int (length rivids) \<le> num_rivids \<and>
           (\<forall>i < length dists. real i * dst < dists ! i) \<and>
           sorted_wrt (<) ks \<and>
           (\<forall>k \<in> set ks. k < length (downstream_rivers_list s)) \<and>
           rivids = map ((!) (downstream_rivers_list s)) ks \<and>
           dists = map (\<lambda>k. cumulative env (downstream_rivers_list s) (Suc k)) ks \<and>
           (\<forall>k \<in> set ks. set (take (Suc k) (downstream_rivers_list s)) \<subseteq> set (shp_comids env)) \<and>
           (\<forall>pre x post.
              downstream_rivers_list s = pre @ x # post \<and> x \<notin> set (shp_comids env) \<longrightarrow>
              get_rivids_along_downstream env (s\<lparr>downstream_rivers_list := pre\<rparr>) num_rivids dst =
                Inr (rivids, dists))"
proof -
  let ?lst = "downstream_rivers_list s"
  have "\<exists>ks. along_downstream env num_rivids dst ?lst [] [] 0 =
                 Inr (map ((!) ?lst) ks, map (\<lambda>k. cumulative env ?lst (Suc k)) ks) \<and>
              sorted_wrt (<) ks \<and> (\<forall>k \<in> set ks. k < length ?lst) \<and>
              (int (length ks) \<le> num_rivids \<or> ks = []) \<and>
              (\<forall>i < length ks. cumulative env ?lst (Suc (ks ! i)) > real i * dst) \<and>
              (\<forall>k \<in> set ks. set (take (Suc k) ?lst) \<subseteq> set (shp_comids env))"
    using assms
    by (intro along_downstream_positions [where seen = "[]"]) (simp_all add: cumulative_def)
  then obtain ks where
    ks: "get_rivids_along_downstream env s num_rivids dst =
           Inr (map ((!) ?lst) ks, map (\<lambda>k. cumulative env ?lst (Suc k)) ks)"
      "sorted_wrt (<) ks" "\<forall>k \<in> set ks. k < length ?lst"
      "int (length ks) \<le> num_rivids \<or> ks = []"
      "\<forall>i < length ks. cumulative env ?lst (Suc (ks ! i)) > real i * dst"
      "\<forall>k \<in> set ks. set (take (Suc k) ?lst) \<subseteq> set (shp_comids env)"
    unfolding get_rivids_along_downstream_def by blast
  have stop: "get_rivids_along_downstream env (s\<lparr>downstream_rivers_list := pre\<rparr>) num_rivids dst =
                get_rivids_along_downstream env s num_rivids dst"
    if "?lst = pre @ x # post" "x \<notin> set (shp_comids env)" for pre x post
    using that by (simp add: get_rivids_along_downstream_def along_downstream_stops)
  from ks(4) assms have "int (length ks) \<le> num_rivids" by auto
  with ks stop show ?thesis
    by (intro exI [of _ "map ((!) ?lst) ks"]
              exI [of _ "map (\<lambda>k. cumulative env ?lst (Suc k)) ks"] exI [of _ ks])
       simp
qed

lemma example_along:
  "get_rivids_along_downstream example_env
     (initial_state\<lparr>downstream_rivers_list := [1, 2, 3, 0, 2]\<rparr>) 5 35 = Inr ([1, 3], [10, 60])"
  by (simp add: get_rivids_along_downstream_def example_env_def shp_comids_def river_lengths_def
        list_at_def)

text \<open>
  With 35 km between reaches the walk 1, 2, 3 (10, 20 and 30 km) gives reach 1 at 10 km
  and reach 3 at 60 km; the outlet 0 is not in the shapefile and ends the walk.
\<close>

theorem get_rivids_along_downstream_result_witness:
  "(0 :: int) \<le> 5 \<and>
   get_rivids_along_downstream example_env
     (initial_state\<lparr>downstream_rivers_list := [1, 2, 3, 0, 2]\<rparr>) 5 35 = Inr ([1, 3], [10, 60]) \<and>
   get_rivids_along_downstream example_env
     (initial_state\<lparr>downstream_rivers_list := [1, 2, 3]\<rparr>) 5 35 = Inr ([1, 3], [10, 60]) \<and>
   int (length [1, 3 :: int]) \<le> 5 \<and> 0 * 35 < (10 :: real) \<and> 1 * 35 < (60 :: real) \<and>
   cumulative example_env [1, 2, 3, 0, 2] 1 = 10 \<and> cumulative example_env [1, 2, 3, 0, 2] 3 = 60"
proof -
  let ?s = "initial_state\<lparr>downstream_rivers_list := [1, 2, 3, 0, 2]\<rparr>"
  have h: "(0 :: int) \<le> 5" by simp
  from get_rivids_along_downstream_result [OF h, of example_env ?s 35] obtain rivids dists ks where
    r: "get_rivids_along_downstream example_env ?s 5 35 = Inr (rivids, dists)"
      "\<forall>pre x post.
         downstream_rivers_list ?s = pre @ x # post \<and> x \<notin> set (shp_comids example_env) \<longrightarrow>
         get_rivids_along_downstream example_env (?s\<lparr>downstream_rivers_list := pre\<rparr>) 5 35 =
           Inr (rivids, dists)"
    by blast
  from r(1) have rd: "rivids = [1, 3]" "dists = [10, 60]"
    by (simp_all add: example_along)
  have "downstream_rivers_list ?s = [1, 2, 3] @ 0 # [2] \<and> 0 \<notin> set (shp_comids example_env)"
    by (simp add: example_env_def shp_comids_def)
  with r(2) have "get_rivids_along_downstream example_env (?s\<lparr>downstream_rivers_list := [1, 2, 3]\<rparr>) 5 35 =
           Inr (rivids, dists)"
    by blast
  with rd example_along show ?thesis
    by (simp add: cumulative_def length_of_def example_env_def)
qed

section \<open>The callbacks: theorems\<close>

lemma get_rivids_along_downstream_empty:
  "downstream_rivers_list s = [] \<Longrightarrow> get_rivids_along_downstream env s n dst = Inr ([], [])"
  by (simp add: get_rivids_along_downstream_def)

lemma get_rivids_along_downstream_zero:
  "get_rivids_along_downstream env s 0 dst = Inr ([], [])"
  by (cases "downstream_rivers_list s") (simp_all add: get_rivids_along_downstream_def)

text \<open>
  Claim C5.  With an empty \<open>downstream_rivers_list\<close> each of the three functions returns
  with every module variable and the set of windows as they were.  \<open>show_propagation\<close>
  and \<open>show_event_duration\<close> have called \<open>update_idle\<close> before, which asks for a redraw
  of the control window; \<open>show_discharge_over_time\<close> has no effect at all.
\<close>

theorem plots_need_a_selection:
  assumes "downstream_rivers_list s = []"
  shows "show_propagation env s = (None, s, update_idle) \<and>
         show_event_duration env s = (None, s, update_idle) \<and>
         show_discharge_over_time env s = (None, s, [])"
  using assms
  by (simp add: show_propagation_def show_event_duration_def show_discharge_over_time_def
        get_rivids_along_downstream_empty Let_def)

text \<open>
  The initial state has no selection.
\<close>

theorem plots_need_a_selection_witness:
  "downstream_rivers_list initial_state = [] \<and>
   show_propagation example_env initial_state = (None, initial_state, [DrawIdle ''Control Room'']) \<and>
   show_event_duration example_env initial_state = (None, initial_state, [DrawIdle ''Control Room'']) \<and>
   show_discharge_over_time example_env initial_state = (None, initial_state, [])"
  using plots_need_a_selection [of initial_state example_env]
  by (simp add: initial_state_def update_idle_def)

lemma set_threshold_level_state:
  "\<exists>r out. set_threshold_level env text s = (r, s, out)"
  by (simp add: set_threshold_level_def Let_def split: option.splits prod.splits)

lemma show_num_reaches_frame:
  "show_num_reaches env n s = (r, s', out) \<Longrightarrow>
     downstream_rivers_list s' = downstream_rivers_list s \<and> threshold_level s' = threshold_level s"
  by (auto simp: show_num_reaches_def Let_def split: prod.splits option.splits)

lemma update_num_reaches_frame:
  "update_num_reaches env text s = (r, s', out) \<Longrightarrow>
     downstream_rivers_list s' = downstream_rivers_list s \<and> threshold_level s' = threshold_level s"
  unfolding update_num_reaches_def Let_def
  by (auto split: if_splits dest!: show_num_reaches_frame)

lemma show_reach_dist_frame:
  "show_reach_dist env x printed s = (r, s', out) \<Longrightarrow>
     downstream_rivers_list s' = downstream_rivers_list s \<and> threshold_level s' = threshold_level s"
  by (auto simp: show_reach_dist_def Let_def split: prod.splits option.splits)

lemma update_reach_dist_frame:
  "update_reach_dist env text s = (r, s', out) \<Longrightarrow>
     downstream_rivers_list s' = downstream_rivers_list s \<and> threshold_level s' = threshold_level s"
  unfolding update_reach_dist_def Let_def
  by (auto split: if_splits dest!: show_reach_dist_frame)

lemma show_propagation_frame:
  "show_propagation env s = (r, s', out) \<Longrightarrow>
     downstream_rivers_list s' = downstream_rivers_list s \<and> threshold_level s' = threshold_level s"
  unfolding show_propagation_def Let_def new_figure_def
  by (auto split: if_splits sum.splits prod.splits option.splits)

lemma show_event_duration_frame:
  "show_event_duration env s = (r, s', out) \<Longrightarrow>
     downstream_rivers_list s' = downstream_rivers_list s \<and> threshold_level s' = threshold_level s"
  unfolding show_event_duration_def Let_def new_figure_def
  by (auto split: if_splits sum.splits prod.splits option.splits)

lemma show_discharge_over_time_frame:
  "show_discharge_over_time env s = (r, s', out) \<Longrightarrow>
     downstream_rivers_list s' = downstream_rivers_list s \<and> threshold_level s' = threshold_level s"
  unfolding show_discharge_over_time_def Let_def new_figure_def
  by (auto split: if_splits sum.splits prod.splits option.splits)

lemma choose_downstream_frame:
  assumes "choose_downstream env rivid s = Some (r, s', out)"
  shows "prefix (downstream_rivers_list s @ [rivid]) (downstream_rivers_list s') \<and>
         threshold_level s' = threshold_level s"
proof -
  from assms obtain lst where
    loop: "choose_downstream_loop (connectivity env) rivid (downstream_rivers_list s @ [rivid]) =
             Some (r, lst)"
    and s': "s' = s\<lparr>downstream_rivers_list := lst\<rparr>"
    by (auto simp: choose_downstream_def split: option.splits)
  from choose_downstream_loop_prefix [OF loop] s' show ?thesis by simp
qed

lemma step_threshold_level:
  assumes "step env cb s = Some (r, s', out)"
  shows "threshold_level s' = threshold_level s"
proof (cases cb)
  case (Choose_downstream rivid)
  with assms show ?thesis by (auto dest: choose_downstream_frame)
next
  case (Update_num_reaches tx)
  with assms show ?thesis by (auto dest: update_num_reaches_frame)
next
  case (Update_reach_dist tx)
  with assms show ?thesis by (auto dest: update_reach_dist_frame)
next
  case (Set_threshold_level tx)
  with assms set_threshold_level_state [of env tx s] show ?thesis by auto
next
  case Show_propagation
  with assms show ?thesis by (auto dest: show_propagation_frame)
next
  case Show_event_duration
  with assms show ?thesis by (auto dest: show_event_duration_frame)
next
  case Show_discharge_over_time
  with assms show ?thesis by (auto dest: show_discharge_over_time_frame)
next
  case Reset
  with assms show ?thesis by (auto simp: reset_def)
qed

lemma run_threshold_level:
  "run env cbs s = Some (s', out) \<Longrightarrow> threshold_level s' = threshold_level s"
proof (induction cbs arbitrary: s out)
  case Nil
  then show ?case by simp
next
  case (Cons cb cbs)
  from Cons.prems obtain r s1 out1 out2 where
    1: "step env cb s = Some (r, s1, out1)" and 2: "run env cbs s1 = Some (s', out2)"
    by (auto split: option.splits)
  from Cons.IH [OF 2] step_threshold_level [OF 1] show ?case by simp
qed

text \<open>
  Claim C9.  \<open>set_threshold_level\<close> returns the state it was called in, whatever the text,
  and after any sequence of callbacks from the initial state \<open>threshold_level\<close>, which the
  two plots pass to \<open>numpy.percentile\<close>, is still \<open>"90"\<close>.
\<close>

theorem threshold_level_stays_90:
  "(\<forall>text s. \<exists>r out. set_threshold_level env text s = (r, s, out)) \<and>
   (\<forall>cbs s out. run env cbs initial_state = Some (s, out) \<longrightarrow> threshold_level s = ''90'')"
proof -
  have "threshold_level s = ''90''" if "run env cbs initial_state = Some (s, out)" for cbs s out
    using run_threshold_level [OF that] by (simp add: initial_state_def)
  with set_threshold_level_state show ?thesis by blast
qed

text \<open>
  Claim C10.  A call of \<open>choose_downstream\<close> that returns or raises leaves the list it
  found, followed by the id chosen, as a prefix of \<open>downstream_rivers_list\<close>; \<open>reset\<close>
  empties the list; no other callback changes it.
\<close>

theorem downstream_rivers_list_only_grows:
  assumes "step env cb s = Some (r, s', out)"
  shows "(case cb of
            Reset \<Rightarrow> downstream_rivers_list s' = []
          | Choose_downstream rivid \<Rightarrow>
              prefix (downstream_rivers_list s @ [rivid]) (downstream_rivers_list s')
          | _ \<Rightarrow> downstream_rivers_list s' = downstream_rivers_list s)"
proof (cases cb)
  case (Choose_downstream rivid)
  with assms show ?thesis by (auto dest: choose_downstream_frame)
next
  case (Update_num_reaches tx)
  with assms show ?thesis by (auto dest: update_num_reaches_frame)
next
  case (Update_reach_dist tx)
  with assms show ?thesis by (auto dest: update_reach_dist_frame)
next
  case (Set_threshold_level tx)
  with assms set_threshold_level_state [of env tx s] show ?thesis by auto
next
  case Show_propagation
  with assms show ?thesis by (auto dest: show_propagation_frame)
next
  case Show_event_duration
  with assms show ?thesis by (auto dest: show_event_duration_frame)
next
  case Show_discharge_over_time
  with assms show ?thesis by (auto dest: show_discharge_over_time_frame)
next
  case Reset
  with assms show ?thesis by (auto simp: reset_def)
qed

lemma draw_map_total: "\<exists>rivids. draw_map env s = (None, [DrawMap rivids])"
  using get_rivids_along_downstream_total [of env s "num_reaches s" "reach_dist s"]
  by (auto simp: draw_map_def)

lemma draw_map_zero: "num_reaches s = 0 \<Longrightarrow> draw_map env s = (None, [DrawMap []])"
  by (simp add: draw_map_def get_rivids_along_downstream_zero)

text \<open>
  Claim C7, as amended.  A text that does not parse leaves the setting at its fallback
  value, 0 for the number of reaches and the initial default for the distance.  No warning
  is printed: where the setting already has that value only the control window is
  redrawn, otherwise the message of a changed value is printed and the map is drawn again.
\<close>

theorem unparsable_text_falls_back:
  assumes "py_int env text1 = None" and "py_float env text2 = None"
  shows "update_num_reaches env text1 s =
           (if num_reaches s = 0 then (None, s\<lparr>num_reaches_str := text1\<rparr>, update_idle)
            else (None, s\<lparr>num_reaches_str := text1, num_reaches := 0\<rparr>,
                  [Print [Str ''Showing'', Num 0, Str ''river reaches''], DrawMap []] @
                  redraw_canvases)) \<and>
         (\<exists>rivids.
            update_reach_dist env text2 s =
              (if reach_dist s = default_reach_dist
               then (None, s\<lparr>reach_dist_str := text2\<rparr>, update_idle)
               else (None, s\<lparr>reach_dist_str := text2, reach_dist := default_reach_dist\<rparr>,
                     [Print [Str ''Maintaining a distance of'', Flt default_reach_dist,
                             Str reach_dist_units, Str ''between river reaches''],
                      DrawMap rivids] @ redraw_canvases)))"
proof -
  have "update_num_reaches env text1 s =
           (if num_reaches s = 0 then (None, s\<lparr>num_reaches_str := text1\<rparr>, update_idle)
            else (None, s\<lparr>num_reaches_str := text1, num_reaches := 0\<rparr>,
                  [Print [Str ''Showing'', Num 0, Str ''river reaches''], DrawMap []] @
                  redraw_canvases))"
    using assms(1)
    by (simp add: update_num_reaches_def show_num_reaches_def draw_map_zero Let_def)
  moreover
  obtain rivids where
    "draw_map env (s\<lparr>reach_dist_str := text2, reach_dist := default_reach_dist\<rparr>) =
       (None, [DrawMap rivids])"
    using draw_map_total by blast
  then have "update_reach_dist env text2 s =
              (if reach_dist s = default_reach_dist
               then (None, s\<lparr>reach_dist_str := text2\<rparr>, update_idle)
               else (None, s\<lparr>reach_dist_str := text2, reach_dist := default_reach_dist\<rparr>,
                     [Print [Str ''Maintaining a distance of'', Flt default_reach_dist,
                             Str reach_dist_units, Str ''between river reaches''],
                      DrawMap rivids] @ redraw_canvases))"
    using assms(2)
    by (simp add: update_reach_dist_def show_reach_dist_def Let_def default_reach_dist_def)
  ultimately show ?thesis by blast
qed

lemma decimal_abc: "decimal_int ''abc'' = None" "decimal_float ''abc'' = None"
  by (simp_all add: decimal_float_def decimal_int_def digit_of_def)

text \<open>
  Claim C7 as stated fails for the text \<open>abc\<close> once a reach has been chosen and nothing
  else changed: \<open>update_reach_dist\<close> prints nothing, and \<open>update_num_reaches\<close> prints only
  that it shows 0 river reaches.
\<close>

theorem unparsable_text_counterexample:
  "py_float example_env ''abc'' = None \<and>
   update_reach_dist example_env ''abc'' example_state =
     (None, example_state\<lparr>reach_dist_str := ''abc''\<rparr>, [DrawIdle ''Control Room'']) \<and>
   py_int example_env ''abc'' = None \<and>
   update_num_reaches example_env ''abc'' example_state =
     (None, example_state\<lparr>num_reaches_str := ''abc'', num_reaches := 0\<rparr>,
      [Print [Str ''Showing'', Num 0, Str ''river reaches''], DrawMap [],
       DrawIdle ''River Network'', DrawIdle ''Control Room''])"
  by (simp add: example_env_def decimal_abc update_reach_dist_def update_num_reaches_def
        show_num_reaches_def draw_map_zero default_reach_dist_def initial_state_def
        example_state_def update_idle_def redraw_canvases_def Let_def)

text \<open>
  The text \<open>abc\<close> once reach 1 has been chosen: the number of reaches goes from 5 to 0,
  the distance already is the default.
\<close>

theorem unparsable_text_falls_back_witness:
  "py_int example_env ''abc'' = None \<and> py_float example_env ''abc'' = None \<and>
   update_num_reaches example_env ''abc'' example_state =
     (None, example_state\<lparr>num_reaches_str := ''abc'', num_reaches := 0\<rparr>,
      [Print [Str ''Showing'', Num 0, Str ''river reaches''], DrawMap [],
       DrawIdle ''River Network'', DrawIdle ''Control Room'']) \<and>
   update_reach_dist example_env ''abc'' example_state =
     (None, example_state\<lparr>reach_dist_str := ''abc''\<rparr>, [DrawIdle ''Control Room''])"
proof -
  have h1: "py_int example_env ''abc'' = None" and h2: "py_float example_env ''abc'' = None"
    by (simp_all add: example_env_def decimal_abc)
  from unparsable_text_falls_back [OF h1 h2, of example_state] h1 h2 show ?thesis
    by (simp add: initial_state_def example_state_def default_reach_dist_def update_idle_def
          redraw_canvases_def)
qed

lemma example_loop:
  "choose_downstream_loop (connectivity example_env) 1 lst = Some (None, lst @ [2, 3, 0])"
  "choose_downstream_loop (connectivity example_env) 2 lst = Some (None, lst @ [3, 0])"
proof -
  let ?c = "[(1, [2, 0]), (2, [3, 1]), (3, [0, 2])] :: conn"
  have 0: "choose_downstream_loop ?c 0 l = Some (None, l)" for l
    by (subst choose_downstream_loop.simps) simp
  have 3: "choose_downstream_loop ?c 3 l = Some (None, l @ [0])" for l
    by (subst choose_downstream_loop.simps) (simp add: 0)
  have 2: "choose_downstream_loop ?c 2 l = Some (None, l @ [3, 0])" for l
    by (subst choose_downstream_loop.simps) (simp add: 3)
  have 1: "choose_downstream_loop ?c 1 l = Some (None, l @ [2, 3, 0])" for l
    by (subst choose_downstream_loop.simps) (simp add: 2)
  show "choose_downstream_loop (connectivity example_env) 1 lst = Some (None, lst @ [2, 3, 0])"
    and "choose_downstream_loop (connectivity example_env) 2 lst = Some (None, lst @ [3, 0])"
    by (simp_all add: example_env_def 1 2)
qed

text \<open>
  Choosing reach 2 after reach 1 puts the path of 2 behind the path of 1.
\<close>

theorem downstream_rivers_list_only_grows_witness:
  "step example_env (Choose_downstream 2) (initial_state\<lparr>downstream_rivers_list := [1, 2, 3, 0]\<rparr>) =
     Some (None, initial_state\<lparr>downstream_rivers_list := [1, 2, 3, 0, 2, 3, 0]\<rparr>, []) \<and>
   prefix ([1, 2, 3, 0] @ [2]) [1, 2, 3, 0, 2, 3, 0 :: int] \<and>
   step example_env Reset (initial_state\<lparr>downstream_rivers_list := [1, 2, 3, 0]\<rparr>) =
     Some (reset (initial_state\<lparr>downstream_rivers_list := [1, 2, 3, 0]\<rparr>)) \<and>
   downstream_rivers_list (fst (snd (reset (initial_state\<lparr>downstream_rivers_list := [1, 2, 3, 0]\<rparr>)))) = []"
proof -
  let ?s = "initial_state\<lparr>downstream_rivers_list := [1, 2, 3, 0]\<rparr>"
  have st: "step example_env (Choose_downstream 2) ?s =
              Some (None, initial_state\<lparr>downstream_rivers_list := [1, 2, 3, 0, 2, 3, 0]\<rparr>, [])"
    by (simp add: choose_downstream_def example_loop)
  have rs: "step example_env Reset ?s = Some (None, fst (snd (reset ?s)), snd (snd (reset ?s)))"
    by (simp add: reset_def)
  from downstream_rivers_list_only_grows [OF st] downstream_rivers_list_only_grows [OF rs] st
  show ?thesis by simp
qed

section \<open>show\_propagation: theorems\<close>

lemma list_index_first:
  "list_index xs x = Inr i \<Longrightarrow> i < length xs \<and> xs ! i = x \<and> (\<forall>j < i. xs ! j \<noteq> x)"
proof (induction xs arbitrary: i)
  case Nil
  then show ?case by simp
next
  case (Cons y ys)
  show ?case
  proof (cases "y = x")
    case True
    with Cons.prems show ?thesis by simp
  next
    case False
    with Cons.prems obtain i' where i': "list_index ys x = Inr i'" "i = Suc i'"
      by (auto split: sum.splits)
    from Cons.IH [OF i'(1)] i'(2) False show ?thesis
      by (auto simp: nth_Cons split: nat.splits)
  qed
qed

lemma py_max_Max: "py_max xs = Inr m \<Longrightarrow> m = Max (set xs)"
  by (cases xs) (auto simp: py_max_def Max.set_eq_fold [symmetric])

lemma index_of_max_first:
  assumes "index_of_max corr = Inr l"
  shows "l < length corr \<and> corr ! l = Max (set corr) \<and> (\<forall>j < l. corr ! j \<noteq> Max (set corr))"
proof -
  from assms obtain m where m: "py_max corr = Inr m" "list_index corr m = Inr l"
    by (auto simp: index_of_max_def split: sum.splits)
  from py_max_Max [OF m(1)] list_index_first [OF m(2)] show ?thesis by simp
qed

lemma index_all_length: "index_all ids rivids = Inr ss \<Longrightarrow> length ss = length rivids"
  by (induction rivids arbitrary: ss) (auto split: sum.splits)

lemma index_of_max_maximum:
  "index_of_max corr = Inr l \<Longrightarrow> index_of_maximum corr l"
  unfolding index_of_maximum_def by (rule index_of_max_first)

lemma propagation_loop_lags:
  "propagation_loop env first_s rest prev_x last_dist = (None, drawn) \<Longrightarrow>
     \<exists>lags. length lags = length rest \<and>
            (\<forall>j < length rest. lag_of env first_s (fst (rest ! j)) (lags ! j)) \<and>
            scatter_times drawn = map (\<lambda>j. prev_x + sum_list (take (Suc j) lags)) [0..<length lags]"
proof (induction rest arbitrary: prev_x last_dist drawn)
  case Nil
  then show ?case by simp
next
  case (Cons t rest)
  obtain s i idx d where t: "t = (s, i, idx, d)" by (cases t)
  from Cons.prems t obtain x y last_x drawn' where
    x: "column (Qout_data env) first_s = Inr x" and
    y: "column (Qout_data env) s = Inr y" and
    l: "index_of_max (ccf env x y) = Inr last_x" and
    rest: "propagation_loop env first_s rest (prev_x + last_x) (last_dist + d) = (None, drawn')" and
    drawn: "drawn = Scatter (prev_x + last_x, last_dist + d)
                    # PlotLine idx (prev_x, last_dist) (prev_x + last_x, last_dist + d) # drawn'"
    by (auto split: sum.splits prod.splits)
  from Cons.IH [OF rest] obtain lags where
    lags: "length lags = length rest"
      "\<forall>j < length rest. lag_of env first_s (fst (rest ! j)) (lags ! j)"
      "scatter_times drawn' =
         map (\<lambda>j. prev_x + last_x + sum_list (take (Suc j) lags)) [0..<length lags]"
    by blast
  have lag: "lag_of env first_s s last_x"
    using x y index_of_max_maximum [OF l] by (simp add: lag_of_def)
  have 1: "length (last_x # lags) = length (t # rest)" using lags(1) by simp
  have 2: "\<forall>j < length (t # rest). lag_of env first_s (fst ((t # rest) ! j)) ((last_x # lags) ! j)"
    using lags(2) lag t by (auto simp: nth_Cons split: nat.splits)
  have 3: "scatter_times drawn =
             map (\<lambda>j. prev_x + sum_list (take (Suc j) (last_x # lags))) [0..<length (last_x # lags)]"
    using lags(3) drawn by (simp add: map_upt_Suc add.assoc del: upt_Suc)
  from 1 2 3 show ?case by blast
qed

text \<open>
  Claim C8.  When \<open>show_propagation\<close> draws its window and returns, there is a delay for
  each selected reach after the first: the index of the maximum value of the
  cross-correlation function of the series of the first reach and the series of that
  reach.  The time coordinates of the plotted points are the cumulative sums of these
  delays.
\<close>

theorem propagation_delays:
  assumes "show_propagation env s = (None, s', out)"
    and "''River Propagation Time'' \<notin> set (get_figlabels s)"
    and "downstream_rivers_list s \<noteq> []"
  shows "\<exists>rivids dists ss lags.
           get_rivids_along_downstream env s (num_reaches s) (reach_dist s) = Inr (rivids, dists) \<and>
           index_all (Qout_data_ids env) rivids = Inr ss \<and>
           length ss = length rivids \<and>
           length lags = length rivids - 1 \<and>
           (\<forall>j < length lags. lag_of env (ss ! 0) (ss ! Suc j) (lags ! j)) \<and>
           scatter_times out = map (\<lambda>j. sum_list (take (Suc j) lags)) [0..<length lags]"
proof -
  obtain rivids dists where
    rd: "get_rivids_along_downstream env s (num_reaches s) (reach_dist s) = Inr (rivids, dists)"
    using get_rivids_along_downstream_total by blast
  have len: "length dists = length rivids"
    using rd along_downstream_lengths
    by (auto simp: get_rivids_along_downstream_def)
  from assms rd obtain ss drawn where
    ss: "index_all (Qout_data_ids env) rivids = Inr ss" and
    drawn: "propagation env (zip ss (zip [0..<length rivids] (zip rivids dists))) = (None, drawn)" and
    out: "out = update_idle @ [Print [Str ''Drawing the propagation timeseries:'']] @ drawn @
                [Print [Str ''Finished drawing the propagation timeseries''],
                 DrawIdle ''River Propagation Time'']"
    by (auto simp: show_propagation_def Let_def split: sum.splits prod.splits option.splits)
  have lss: "length ss = length rivids" using ss by (rule index_all_length)
  let ?tuples = "zip ss (zip [0..<length rivids] (zip rivids dists))"
  have ltup: "length ?tuples = length rivids" using lss len by simp
  have st: "scatter_times out = scatter_times drawn"
  proof -
    have "scatter_times (xs @ [Print a, DrawIdle b]) = scatter_times xs" for xs a b
      by (induction xs rule: scatter_times.induct) simp_all
    then show ?thesis by (simp add: out update_idle_def)
  qed
  show ?thesis
  proof (cases ?tuples)
    case Nil
    with ltup have "rivids = []" by simp
    moreover from drawn have "drawn = []" unfolding Nil by (simp add: propagation_def)
    ultimately show ?thesis using rd ss lss st
      by (intro exI [of _ rivids] exI [of _ dists] exI [of _ ss] exI [of _ "[]"]) simp
  next
    case (Cons t rest)
    obtain s0 i0 idx0 d0 where t: "t = (s0, i0, idx0, d0)" by (cases t)
    from drawn have loop: "propagation_loop env s0 rest 0 d0 = (None, drawn)"
      unfolding Cons t by (simp add: propagation_def)
    from propagation_loop_lags [OF loop] obtain lags where
      lags: "length lags = length rest"
        "\<forall>j < length rest. lag_of env s0 (fst (rest ! j)) (lags ! j)"
        "scatter_times drawn = map (\<lambda>j. sum_list (take (Suc j) lags)) [0..<length lags]"
      by auto
    from Cons ltup have lrest: "length rest = length rivids - 1" by (metis length_Cons diff_Suc_1)
    have s0: "s0 = ss ! 0"
      using Cons t ltup lss len
      by (metis fst_conv length_greater_0_conv list.distinct(1) nth_Cons_0 nth_zip zip_eq_Nil_iff)
    have restj: "fst (rest ! j) = ss ! Suc j" if "j < length rest" for j
    proof -
      from that lrest have j: "Suc j < length ?tuples" using ltup by simp
      have "rest ! j = ?tuples ! Suc j" using Cons by simp
      also have "fst \<dots> = ss ! Suc j" using j by simp
      finally show ?thesis .
    qed
    from lags lrest s0 restj rd ss lss st show ?thesis
      by (intro exI [of _ rivids] exI [of _ dists] exI [of _ ss] exI [of _ lags]) simp
  qed
qed

section \<open>The example, run\<close>

lemma example_rivids:
  "get_rivids_along_downstream example_env
     (initial_state\<lparr>downstream_rivers_list := [1, 2, 3, 0], reach_dist := 15\<rparr>) 5 15 =
   Inr ([1, 2, 3], [10, 30, 60])"
  by (simp add: get_rivids_along_downstream_def example_env_def shp_comids_def river_lengths_def
        list_at_def)

lemma example_columns:
  "column (Qout_data example_env) 0 = Inr [1, 5, 2, 1]"
  "column (Qout_data example_env) 1 = Inr [0, 1, 5, 2]"
  "column (Qout_data example_env) 2 = Inr [0, 0, 1, 5]"
  by (simp_all add: column_def example_env_def)

lemma example_lags:
  "index_of_max (ccf example_env [1, 5, 2, 1] [0, 1, 5, 2]) = Inr 2"
  "index_of_max (ccf example_env [1, 5, 2, 1] [0, 0, 1, 5]) = Inr 3"
  by (simp_all add: example_env_def index_of_max_def py_max_def)

lemma example_propagation:
  "show_propagation example_env
     (initial_state\<lparr>downstream_rivers_list := [1, 2, 3, 0], reach_dist := 15\<rparr>) =
   (None,
    initial_state\<lparr>downstream_rivers_list := [1, 2, 3, 0], reach_dist := 15,
                  figures := [(1, ''River Network''), (2, ''River Propagation Time'')]\<rparr>,
    [DrawIdle ''Control Room'',
     Print [Str ''Drawing the propagation timeseries:''],
     Scatter (2, 40), PlotLine 2 (0, 10) (2, 40),
     Scatter (5, 100), PlotLine 3 (2, 40) (5, 100),
     Print [Str ''Finished drawing the propagation timeseries''],
     DrawIdle ''River Propagation Time''])"
  by code_simp

lemma example_run:
  "run example_env [Choose_downstream 1, Set_threshold_level ''50'', Show_event_duration]
     initial_state =
   Some (initial_state\<lparr>downstream_rivers_list := [1, 2, 3, 0],
                       figures := [(1, ''River Network''), (2, ''Peak Duration'')]\<rparr>,
         [Print [Str ''Setting the river threshold level to 90 percentile.''],
          DrawIdle ''Control Room'', DrawIdle ''Control Room'',
          Print [Str ''Drawing the event duration:''],
          FillPeaks 1 (9 / 2) [(1, 5)],
          Print [Str ''Finished drawing the river discharges''],
          DrawIdle ''Peak Duration''])"
  by code_simp

text \<open>
  Reaches 1, 2 and 3 of the example, 15 km apart: the delays are 2 and 3, the points are
  plotted at times 2 and 5.
\<close>

theorem propagation_delays_witness:
  "show_propagation example_env
     (initial_state\<lparr>downstream_rivers_list := [1, 2, 3, 0], reach_dist := 15\<rparr>) =
     (None,
      initial_state\<lparr>downstream_rivers_list := [1, 2, 3, 0], reach_dist := 15,
                    figures := [(1, ''River Network''), (2, ''River Propagation Time'')]\<rparr>,
      [DrawIdle ''Control Room'',
       Print [Str ''Drawing the propagation timeseries:''],
       Scatter (2, 40), PlotLine 2 (0, 10) (2, 40),
       Scatter (5, 100), PlotLine 3 (2, 40) (5, 100),
       Print [Str ''Finished drawing the propagation timeseries''],
       DrawIdle ''River Propagation Time'']) \<and>
   ''River Propagation Time'' \<notin>
     set (get_figlabels (initial_state\<lparr>downstream_rivers_list := [1, 2, 3, 0], reach_dist := 15\<rparr>)) \<and>
   downstream_rivers_list (initial_state\<lparr>downstream_rivers_list := [1, 2, 3, 0], reach_dist := 15\<rparr>) \<noteq> [] \<and>
   lag_of example_env 0 1 2 \<and> lag_of example_env 0 2 3 \<and>
   map (\<lambda>j. sum_list (take (Suc j) [2, 3 :: nat])) [0..<2] = [2, 5]"
proof -
  let ?s = "initial_state\<lparr>downstream_rivers_list := [1, 2, 3, 0], reach_dist := 15\<rparr>"
  have h2: "''River Propagation Time'' \<notin> set (get_figlabels ?s)"
    by (simp add: get_figlabels_def initial_state_def)
  have h3: "downstream_rivers_list ?s \<noteq> []" by simp
  have l: "lag_of example_env 0 1 2" "lag_of example_env 0 2 3"
    unfolding lag_of_def example_columns
    by (simp_all add: index_of_max_maximum example_lags)
  have c: "map (\<lambda>j. sum_list (take (Suc j) [2, 3 :: nat])) [0..<2] = [2, 5]"
    by (simp add: upt_rec)
  from propagation_delays [OF example_propagation h2 h3] example_propagation h2 h3 l c
  show ?thesis by simp
qed

text \<open>
  Reach 1 is chosen, 50 is entered as the threshold and the event durations are drawn:
  the level printed and used is 90.
\<close>

theorem threshold_level_stays_90_witness:
  "set_threshold_level example_env ''50'' initial_state =
     (None, initial_state,
      [Print [Str ''Setting the river threshold level to 90 percentile.''],
       DrawIdle ''Control Room'']) \<and>
   run example_env [Choose_downstream 1, Set_threshold_level ''50'', Show_event_duration]
     initial_state =
     Some (initial_state\<lparr>downstream_rivers_list := [1, 2, 3, 0],
                         figures := [(1, ''River Network''), (2, ''Peak Duration'')]\<rparr>,
           [Print [Str ''Setting the river threshold level to 90 percentile.''],
            DrawIdle ''Control Room'', DrawIdle ''Control Room'',
            Print [Str ''Drawing the event duration:''],
            FillPeaks 1 (9 / 2) [(1, 5)],
            Print [Str ''Finished drawing the river discharges''],
            DrawIdle ''Peak Duration'']) \<and>
   threshold_level
     (initial_state\<lparr>downstream_rivers_list := [1, 2, 3, 0],
                    figures := [(1, ''River Network''), (2, ''Peak Duration'')]\<rparr>) = ''90''"
proof -
  have s: "set_threshold_level example_env ''50'' initial_state =
     (None, initial_state,
      [Print [Str ''Setting the river threshold level to 90 percentile.''],
       DrawIdle ''Control Room''])"
    by code_simp
  from threshold_level_stays_90 [of example_env] example_run s show ?thesis
    by (simp add: initial_state_def)
qed

section \<open>Command line: theorems\<close>

lemma get_args_one_to_three:
  "2 \<le> length argv \<Longrightarrow> length argv \<le> 4 \<Longrightarrow> get_args argv = ([], Inl IndexError)"
  by (auto simp: get_args_def list_at_def Let_def)

lemma get_args_no_argument: "get_args [prog] = ([], Inr default_paths)"
  by (simp add: get_args_def)

text \<open>
  Claim C3.  With one, two or three positional arguments the program should take them as
  the connectivity, shapefile and discharge paths.  The code reads \<open>sys.argv[2]\<close>,
  \<open>sys.argv[3]\<close> and \<open>sys.argv[4]\<close> where the arguments are at positions 1, 2 and 3: with
  the single argument \<open>conn.csv\<close> the start-up ends with an IndexError, no input file is
  opened and the path is not used.
\<close>

theorem get_args_one_argument_raises:
  "startup [''rrr_raf_tal.py'', ''conn.csv''] = (assets, Inl IndexError)"
  by (simp add: startup_def get_args_def list_at_def)

text \<open>
  Claim C4.  With more than three positional arguments (\<open>sys.argv\<close> longer than four) the
  program prints the fixed message and ends with exit code 22.  No input file has been
  opened: all it has read are the three assets of its user interface.
\<close>

theorem too_many_arguments_exit_22:
  assumes "length argv > 4"
  shows "startup argv =
           (assets @ [Print [Str ''Error: A maximum of 3 arguments can be used.'']],
            Inl (SystemExit 22))"
  using assms by (simp add: startup_def get_args_def)

theorem too_many_arguments_exit_22_witness:
  "length [''rrr_raf_tal.py'', ''a'', ''b'', ''c'', ''d''] > 4 \<and>
   startup [''rrr_raf_tal.py'', ''a'', ''b'', ''c'', ''d''] =
     ([LoadAsset ''./assets/fonts/Inter.ttf'',
       LoadAsset ''./assets/svgs/waypoint.svg'',
       LoadAsset ''./assets/gifs/RAFT.gif'',
       Print [Str ''Error: A maximum of 3 arguments can be used.'']],
      Inl (SystemExit 22))"
  using too_many_arguments_exit_22 [of "[''rrr_raf_tal.py'', ''a'', ''b'', ''c'', ''d'']"]
  by (simp add: assets_def)

end
